theory Spec2Isabelle
  imports Complex_Main
begin

section \<open>Python values, exceptions and results\<close>

text \<open>
  The development covers \<^verbatim>\<open>ophyd_async/core/detector.py\<close> (the enumeration
  \<^verbatim>\<open>DetectorTrigger\<close>, the abstract collaborators \<^verbatim>\<open>DetectorControl\<close> and
  \<^verbatim>\<open>DetectorWriter\<close>, and \<^verbatim>\<open>StandardDetector\<close>) and
  \<^verbatim>\<open>ophyd_async/epics/areadetector/controllers/pilatus_controller.py\<close>.

  A raise is a value: an operation returns \<open>Inl e\<close> for the exception \<open>e\<close> or \<open>Inr a\<close>
  for the result \<open>a\<close>. Python's \<^verbatim>\<open>int\<close> is \<open>int\<close>; \<^verbatim>\<open>float\<close> is \<open>real\<close> (the
  code only passes floats on and returns one literal, it computes nothing with them);
  a \<^verbatim>\<open>dict\<close> is an association list in insertion order.
\<close>

datatype py_exception =
    AttributeError
  | KeyError
  | TimeoutError
  | CancelledError
  | OtherError string

text \<open>
  Values: tuples, integers, strings, and plain \<^verbatim>\<open>object()\<close> instances. An object
  is equal to itself only, so it is given by a number that tells it from every other.
\<close>

datatype py_value = Tuple "py_value list" | Int int | Str string | Object nat

fun bind_result :: "py_exception + 'a \<Rightarrow> ('a \<Rightarrow> py_exception + 'b) \<Rightarrow> py_exception + 'b" where
  "bind_result (Inl e) f = Inl e"
| "bind_result (Inr a) f = f a"

subsection \<open>Dictionaries\<close>

text \<open>
  \<^verbatim>\<open>d[k] = v\<close> replaces the value of an existing key, keeping the key object and its
  position, or appends a new entry. A dict display \<^verbatim>\<open>{k1: v1, k2: v2, ...}\<close> stores its
  items from left to right into an empty dict, so a later duplicate key overwrites the
  value of the earlier one. \<^verbatim>\<open>d[k]\<close> raises \<^verbatim>\<open>KeyError\<close> on a missing key.
\<close>

fun dict_setitem :: "('k \<times> 'v) list \<Rightarrow> 'k \<Rightarrow> 'v \<Rightarrow> ('k \<times> 'v) list" where
  "dict_setitem [] k v = [(k, v)]"
| "dict_setitem ((k', v') # d) k v =
     (if k' = k then (k', v) # d else (k', v') # dict_setitem d k v)"

definition dict_display :: "('k \<times> 'v) list \<Rightarrow> ('k \<times> 'v) list" where
  "dict_display kvs = foldl (\<lambda>d (k, v). dict_setitem d k v) [] kvs"

definition dict_getitem :: "('k \<times> 'v) list \<Rightarrow> 'k \<Rightarrow> py_exception + 'v" where
  "dict_getitem d k = (case map_of d k of Some v \<Rightarrow> Inr v | None \<Rightarrow> Inl KeyError)"

subsection \<open>Enumerations\<close>

text \<open>
  A class body deriving from \<^verbatim>\<open>enum.Enum\<close> is a list of \<^verbatim>\<open>name = value\<close>
  assignments. The metaclass walks them in order. For each it first settles the value the
  member is to carry; if a member carrying an equal value has already been created, the
  new name becomes an alias of that member (the same object); otherwise a new member with
  this name and value is created. A member is identified by its canonical name and its
  value. \<open>enum_class\<close> is the resulting name-to-member map (\<^verbatim>\<open>_member_map_\<close>,
  aliases included); \<open>enum_getattr\<close> is the attribute access \<^verbatim>\<open>Cls.name\<close>;
  \<open>enum_iter\<close> is the iteration over the class, which yields the canonical members
  only.

  Which value a member of a plain \<^verbatim>\<open>Enum\<close> carries is decided by the \<^verbatim>\<open>enum\<close>
  module of the interpreter, not by this repository, and releases differ; so it is a
  parameter, the value rule: from the position of the assignment in the body and the
  value written there to the value carried. Two rules are named. \<open>value_as_written\<close>
  is the documented one, and what CPython 3.11.10 and 3.12.3 do: the member carries the
  value written. \<open>new_object_for_empty_tuple\<close> is what CPython 3.11.2 does in a plain
  \<^verbatim>\<open>Enum\<close>: a member whose written value is the empty tuple carries a new
  \<^verbatim>\<open>object()\<close> of its own, any other member the value written.
\<close>

record 'v enum_member =
  member_name :: string
  member_value :: 'v

type_synonym 'v enum_class = "(string \<times> 'v enum_member) list"

type_synonym 'v enum_value_rule = "nat \<Rightarrow> 'v \<Rightarrow> 'v"

definition value_as_written :: "'v enum_value_rule" where
  "value_as_written i v = v"

definition new_object_for_empty_tuple :: "py_value enum_value_rule" where
  "new_object_for_empty_tuple i v = (if v = Tuple [] then Object i else v)"

fun add_member :: "'v enum_value_rule \<Rightarrow> 'v enum_class \<Rightarrow> string \<times> 'v \<Rightarrow> 'v enum_class" where
  "add_member rule cls (n, v) =
     (case find (\<lambda>m. member_value m = rule (length cls) v) (map snd cls) of
        Some m \<Rightarrow> cls @ [(n, m)]
      | None \<Rightarrow> cls @ [(n, \<lparr>member_name = n, member_value = rule (length cls) v\<rparr>)])"

definition EnumType_new :: "'v enum_value_rule \<Rightarrow> (string \<times> 'v) list \<Rightarrow> 'v enum_class" where
  "EnumType_new rule body = foldl (add_member rule) [] body"

definition enum_getattr :: "'v enum_class \<Rightarrow> string \<Rightarrow> py_exception + 'v enum_member" where
  "enum_getattr cls n = (case map_of cls n of Some m \<Rightarrow> Inr m | None \<Rightarrow> Inl AttributeError)"

definition enum_iter :: "'v enum_class \<Rightarrow> 'v enum_member list" where
  "enum_iter cls = map snd (filter (\<lambda>(n, m). member_name m = n) cls)"

text \<open>
  \<^verbatim>\<open>
  class DetectorTrigger(Enum):
      internal = ()
      edge_trigger = ()
      constant_gate = ()
      variable_gate = ()
  \<close>
\<close>

type_synonym DetectorTrigger = "py_value enum_member"

definition DetectorTrigger :: "py_value enum_value_rule \<Rightarrow> py_value enum_class" where
  "DetectorTrigger rule = EnumType_new rule
     [(''internal'', Tuple []), (''edge_trigger'', Tuple []),
      (''constant_gate'', Tuple []), (''variable_gate'', Tuple [])]"

section \<open>Coroutines, the event loop and \<^verbatim>\<open>asyncio.gather\<close>\<close>

text \<open>
  A coroutine over a state \<open>'s\<close> either has returned, has raised, performs an atomic
  step on the state and goes on without giving up control (\<open>Atomic u k\<close>: the state
  becomes \<open>u s\<close> and the rest is \<open>k s\<close>), or reaches a suspension point
  (\<open>Suspend c\<close>: control goes back to the event loop, and \<open>c\<close> is what runs when the
  coroutine is resumed). Scheduling is cooperative: between two suspension points a
  coroutine runs alone.

  \<open>advance\<close> runs a coroutine up to its next suspension point; \<open>run\<close> awaits it to
  completion with nothing else interleaved; \<open>bind c f\<close> is \<^verbatim>\<open>x = await c\<close> followed
  by \<open>f x\<close>.
\<close>

datatype ('s, 'a) coro =
    Return 'a
  | Raise py_exception
  | Atomic "'s \<Rightarrow> 's" "'s \<Rightarrow> ('s, 'a) coro"
  | Suspend "('s, 'a) coro"

datatype ('s, 'a) outcome =
    Finished 'a
  | Failed py_exception
  | Pending "('s, 'a) coro"

primrec advance :: "('s, 'a) coro \<Rightarrow> 's \<Rightarrow> 's \<times> ('s, 'a) outcome" where
  "advance (Return a) s = (s, Finished a)"
| "advance (Raise e) s = (s, Failed e)"
| "advance (Atomic u k) s = advance (k s) (u s)"
| "advance (Suspend c) s = (s, Pending c)"

primrec run :: "('s, 'a) coro \<Rightarrow> 's \<Rightarrow> 's \<times> (py_exception + 'a)" where
  "run (Return a) s = (s, Inr a)"
| "run (Raise e) s = (s, Inl e)"
| "run (Atomic u k) s = run (k s) (u s)"
| "run (Suspend c) s = run c s"

primrec bind :: "('s, 'a) coro \<Rightarrow> ('a \<Rightarrow> ('s, 'b) coro) \<Rightarrow> ('s, 'b) coro" where
  "bind (Return a) f = f a"
| "bind (Raise e) f = Raise e"
| "bind (Atomic u k) f = Atomic u (\<lambda>s. bind (k s) f)"
| "bind (Suspend c) f = Suspend (bind c f)"

text \<open>
  A method that is not \<^verbatim>\<open>async\<close> cannot suspend: a call of it is one step from the
  state before to the state after, with its result or its exception.
\<close>

type_synonym ('s, 'a) plain_call = "'s \<Rightarrow> 's \<times> (py_exception + 'a)"

definition lift_result :: "py_exception + 'a \<Rightarrow> ('s, 'a) coro" where
  "lift_result r = (case r of Inl e \<Rightarrow> Raise e | Inr a \<Rightarrow> Return a)"

text \<open>
  \<^verbatim>\<open>await asyncio.gather(c1, ..., cn)\<close> wraps each awaitable in a task, in argument
  order, and suspends the caller. The loop then runs the first segment of every task in
  that order (\<open>gather_start\<close>). After that a pending task is resumed whenever what it
  waits for is ready. Which task that is, turn after turn, is decided outside the
  program; it is given here as the schedule, the list of the task indices the loop
  resumes, one segment each, before it resumes the caller (an index that names no
  pending task is a turn in which none of these tasks runs).

  The caller is resumed with the list of results once every task has returned. A raise
  does not end the gather at once: the exception of the first task that raises is kept,
  the other tasks are neither cancelled nor awaited, and the loop goes on resuming them
  as the schedule says (\<open>gather_drain\<close>) until it resumes the caller with the kept
  exception; tasks that are ready run on, and may return or raise, before the caller
  sees the failure. asyncio resumes the caller a few turns after the raise; the model
  puts no bound on their number, so every run of the loop is the run of some schedule.

  A schedule that is used up while tasks are pending and none has raised is continued by
  running the pending tasks to their end one after the other, in argument order
  (\<open>gather_rest\<close>); if one of them raises, those after it are still run to their end
  (\<open>drain_rest\<close>) before the caller is resumed with that exception.
  \<open>settle c k\<close> awaits \<open>c\<close> and hands its outcome, result or exception, to \<open>k\<close>.
\<close>

fun first_failure :: "('s, 'a) outcome list \<Rightarrow> py_exception option" where
  "first_failure [] = None"
| "first_failure (Failed e # outs) = Some e"
| "first_failure (out # outs) = first_failure outs"

fun results :: "('s, 'a) outcome list \<Rightarrow> 'a list option" where
  "results [] = Some []"
| "results (Finished a # outs) = map_option ((#) a) (results outs)"
| "results (out # outs) = None"

definition resume :: "nat \<Rightarrow> ('s, 'a) outcome list \<Rightarrow> 's \<Rightarrow> 's \<times> ('s, 'a) outcome list" where
  "resume i outs s =
     (if i < length outs then
        (case outs ! i of
           Pending c \<Rightarrow> (fst (advance c s), outs[i := snd (advance c s)])
         | _ \<Rightarrow> (s, outs))
      else (s, outs))"

primrec settle ::
  "('s, 'a) coro \<Rightarrow> (py_exception + 'a \<Rightarrow> ('s, 'b) coro) \<Rightarrow> ('s, 'b) coro" where
  "settle (Return a) k = k (Inr a)"
| "settle (Raise e) k = k (Inl e)"
| "settle (Atomic u f) k = Atomic u (\<lambda>s. settle (f s) k)"
| "settle (Suspend c) k = Suspend (settle c k)"

primrec drain_rest :: "('s, 'a) outcome list \<Rightarrow> py_exception \<Rightarrow> ('s, 'b) coro" where
  "drain_rest [] e = Raise e"
| "drain_rest (out # outs) e =
     (case out of
        Pending c \<Rightarrow> Suspend (settle c (\<lambda>_. drain_rest outs e))
      | _ \<Rightarrow> drain_rest outs e)"

primrec gather_rest :: "('s, 'a) outcome list \<Rightarrow> ('s, 'a list) coro" where
  "gather_rest [] = Return []"
| "gather_rest (out # outs) =
     (case out of
        Finished a \<Rightarrow> bind (gather_rest outs) (\<lambda>as. Return (a # as))
      | Failed e \<Rightarrow> drain_rest outs e
      | Pending c \<Rightarrow>
          Suspend (settle c (\<lambda>r. case r of
                     Inr a \<Rightarrow> bind (gather_rest outs) (\<lambda>as. Return (a # as))
                   | Inl e \<Rightarrow> drain_rest outs e)))"

primrec gather_drain ::
  "nat list \<Rightarrow> py_exception \<Rightarrow> ('s, 'a) outcome list \<Rightarrow> ('s, 'b) coro" where
  "gather_drain [] e outs = Raise e"
| "gather_drain (i # sched) e outs =
     Suspend (Atomic (\<lambda>s. fst (resume i outs s))
                     (\<lambda>s. gather_drain sched e (snd (resume i outs s))))"

primrec gather_loop :: "nat list \<Rightarrow> ('s, 'a) outcome list \<Rightarrow> ('s, 'a list) coro" where
  "gather_loop [] outs =
     (case first_failure outs of Some e \<Rightarrow> Raise e | None \<Rightarrow> gather_rest outs)"
| "gather_loop (i # sched) outs =
     (case first_failure outs of
        Some e \<Rightarrow> gather_drain (i # sched) e outs
      | None \<Rightarrow>
          (case results outs of
             Some as \<Rightarrow> Return as
           | None \<Rightarrow>
               Suspend (Atomic (\<lambda>s. fst (resume i outs s))
                               (\<lambda>s. gather_loop sched (snd (resume i outs s))))))"

primrec gather_start ::
  "nat list \<Rightarrow> ('s, 'a) outcome list \<Rightarrow> ('s, 'a) coro list \<Rightarrow> ('s, 'a list) coro" where
  "gather_start sched started [] = gather_loop sched started"
| "gather_start sched started (c # cs) =
     Atomic (\<lambda>s. fst (advance c s))
            (\<lambda>s. gather_start sched (started @ [snd (advance c s)]) cs)"

definition gather :: "nat list \<Rightarrow> ('s, 'a) coro list \<Rightarrow> ('s, 'a list) coro" where
  "gather sched cs = Suspend (gather_start sched [] cs)"

subsection \<open>Call traces\<close>

text \<open>
  The state of a method under study has three parts: the world its collaborators act on,
  the instance attributes the method assigns, and a trace that records every call into a
  collaborator (\<open>Called\<close> when the call starts, \<open>Returned\<close> or \<open>Raised\<close> when it
  ends). The trace is there to state orderings; no method reads it. Collaborators are
  coroutines over the world alone: \<open>call n c\<close> is the call \<open>c\<close> under the name \<open>n\<close>,
  with the same segments as \<open>c\<close>.
\<close>

datatype 'op event = Called 'op | Returned 'op | Raised 'op py_exception

fun ev_op :: "'op event \<Rightarrow> 'op" where
  "ev_op (Called n) = n"
| "ev_op (Returned n) = n"
| "ev_op (Raised n e) = n"

record ('w, 'op, 'x) pystate =
  world :: 'w
  trace :: "'op event list"
  attrs :: 'x

definition log :: "'op event \<Rightarrow> ('w, 'op, 'x) pystate \<Rightarrow> ('w, 'op, 'x) pystate" where
  "log ev s = s\<lparr>trace := trace s @ [ev]\<rparr>"

definition on_world :: "('w \<Rightarrow> 'w) \<Rightarrow> ('w, 'op, 'x) pystate \<Rightarrow> ('w, 'op, 'x) pystate" where
  "on_world u s = s\<lparr>world := u (world s)\<rparr>"

primrec traced :: "'op \<Rightarrow> ('w, 'a) coro \<Rightarrow> (('w, 'op, 'x) pystate, 'a) coro" where
  "traced n (Return a) = Atomic (log (Returned n)) (\<lambda>_. Return a)"
| "traced n (Raise e) = Atomic (log (Raised n e)) (\<lambda>_. Raise e)"
| "traced n (Atomic u k) = Atomic (on_world u) (\<lambda>s. traced n (k (world s)))"
| "traced n (Suspend c) = Suspend (traced n c)"

definition call :: "'op \<Rightarrow> ('w, 'a) coro \<Rightarrow> (('w, 'op, 'x) pystate, 'a) coro" where
  "call n c = Atomic (log (Called n)) (\<lambda>_. traced n c)"

definition events_of :: "'op \<Rightarrow> 'op event list \<Rightarrow> 'op event list" where
  "events_of n evs = filter (\<lambda>ev. ev_op ev = n) evs"

text \<open>
  The invariant of one gathered task, used in the proofs about \<open>gather\<close>: the events
  recorded under its name are its call alone while it is pending, and its call followed
  by its return or its raise once it has ended.
\<close>

definition task_inv ::
  "'op event list \<Rightarrow> 'op \<Rightarrow> (('w, 'op, 'x) pystate, 'a) outcome \<Rightarrow> bool" where
  "task_inv evs n out =
     (case out of
        Pending c \<Rightarrow> (\<exists>c0. c = traced n c0) \<and> events_of n evs = [Called n]
      | Finished a \<Rightarrow> events_of n evs = [Called n, Returned n]
      | Failed e \<Rightarrow> events_of n evs = [Called n, Raised n e])"

definition agrees :: "py_exception + 'a list \<Rightarrow> ('s, 'a) outcome list \<Rightarrow> bool" where
  "agrees r outs =
     (case r of Inl e \<Rightarrow> Failed e \<in> set outs | Inr as \<Rightarrow> results outs = Some as)"

section \<open>\<^verbatim>\<open>DetectorControl\<close>, \<^verbatim>\<open>DetectorWriter\<close> and \<^verbatim>\<open>StandardDetector\<close>\<close>

text \<open>
  The two abstract base classes are records of their methods. \<^verbatim>\<open>get_deadtime\<close> is a
  plain call; every other method is \<^verbatim>\<open>async\<close> and so a coroutine over the world.
  \<^verbatim>\<open>arm\<close> returns the status that is awaited afterwards, itself a coroutine.
  \<^verbatim>\<open>collect_stream_docs\<close> and the configuration signals are left out: no statement
  below is about \<^verbatim>\<open>collect_asset_docs\<close>, \<^verbatim>\<open>describe_configuration\<close> or
  \<^verbatim>\<open>read_configuration\<close>.
\<close>

record 'w DetectorControl =
  get_deadtime :: "real \<Rightarrow> ('w, real) plain_call"
  arm :: "DetectorTrigger \<Rightarrow> int \<Rightarrow> real option \<Rightarrow> ('w, ('w, unit) coro) coro"
  disarm :: "('w, unit) coro"

record ('w, 'd) DetectorWriter =
  "open" :: "int \<Rightarrow> ('w, (string \<times> 'd) list) coro"
  wait_for_index :: "int \<Rightarrow> ('w, unit) coro"
  get_indices_written :: "('w, int) coro"
  close :: "('w, unit) coro"

record ('w, 'd) StandardDetector =
  control :: "'w DetectorControl"
  data :: "('w, 'd) DetectorWriter"

datatype detector_op =
    Op_close
  | Op_disarm
  | Op_open int
  | Op_get_indices_written
  | Op_arm DetectorTrigger int "real option"
  | Op_await_status
  | Op_wait_for_index int

text \<open>
  The one attribute the methods assign is \<^verbatim>\<open>self._describe\<close>, the \<open>attrs\<close> part of
  the state. \<^verbatim>\<open>__init__\<close> sets it to \<^verbatim>\<open>{}\<close>.
\<close>

type_synonym ('w, 'd) detector_state = "('w, detector_op, (string \<times> 'd) list) pystate"

definition StandardDetector_init :: "'w \<Rightarrow> ('w, 'd) detector_state" where
  "StandardDetector_init w = \<lparr>world = w, trace = [], attrs = []\<rparr>"

text \<open>
  \<^verbatim>\<open>
  @AsyncStatus.wrap
  async def stage(self) -> None:
      await asyncio.gather(self.data.close(), self.control.disarm())
      self._describe = await self.data.open()
  \<close>
  A method under \<^verbatim>\<open>AsyncStatus.wrap\<close> is modelled by its coroutine: its outcome is
  what awaiting the returned status gives. \<^verbatim>\<open>open()\<close> takes its default
  \<^verbatim>\<open>multiplier=1\<close>. The schedule of the gather is a parameter of \<^verbatim>\<open>stage\<close>:
  a statement for every schedule is a statement about every order in which the loop
  may resume the two tasks.
\<close>

definition stage_gather ::
  "nat list \<Rightarrow> ('w, 'd) StandardDetector \<Rightarrow> (('w, 'd) detector_state, unit list) coro" where
  "stage_gather sched self =
     gather sched [call Op_close (close (data self)), call Op_disarm (disarm (control self))]"

definition stage ::
  "nat list \<Rightarrow> ('w, 'd) StandardDetector \<Rightarrow> (('w, 'd) detector_state, unit) coro" where
  "stage sched self =
     bind (stage_gather sched self) (\<lambda>_.
     bind (call (Op_open 1) (DetectorWriter.open (data self) 1)) (\<lambda>d.
     Atomic (\<lambda>s. s\<lparr>attrs := d\<rparr>) (\<lambda>_. Return ())))"

text \<open>
  \<^verbatim>\<open>
  def describe(self) -> Dict[str, Descriptor]:
      return self._describe
  \<close>
\<close>

definition describe :: "(('w, 'd) detector_state, (string \<times> 'd) list) plain_call" where
  "describe s = (s, Inr (attrs s))"

text \<open>
  \<^verbatim>\<open>
  @AsyncStatus.wrap
  async def trigger(self) -> None:
      indices_written = await self.data.get_indices_written()
      written_status = await self.control.arm(DetectorTrigger.internal, num=1)
      await written_status
      await self.data.wait_for_index(indices_written + 1)
  \<close>
  \<^verbatim>\<open>arm\<close> takes its default \<^verbatim>\<open>exposure=None\<close>. The value rule of the
  interpreter is a parameter, for the access \<^verbatim>\<open>DetectorTrigger.internal\<close>.
\<close>

definition trigger ::
  "py_value enum_value_rule \<Rightarrow> ('w, 'd) StandardDetector \<Rightarrow>
   (('w, 'd) detector_state, unit) coro" where
  "trigger rule self =
     bind (call Op_get_indices_written (get_indices_written (data self))) (\<lambda>indices_written.
     bind (lift_result (enum_getattr (DetectorTrigger rule) ''internal'')) (\<lambda>internal.
     bind (call (Op_arm internal 1 None) (arm (control self) internal 1 None)) (\<lambda>written_status.
     bind (call Op_await_status written_status) (\<lambda>_.
     call (Op_wait_for_index (indices_written + 1))
          (wait_for_index (data self) (indices_written + 1))))))"

text \<open>
  \<^verbatim>\<open>
  async def read(self) -> Dict[str, Reading]:
      return {}

  @AsyncStatus.wrap
  async def unstage(self) -> None:
      await self.data.close()
  \<close>
\<close>

definition read :: "('w, 'd) StandardDetector \<Rightarrow> (('w, 'd) detector_state, (string \<times> 'r) list) coro" where
  "read self = Return []"



text \<open>The events \<^verbatim>\<open>trigger\<close> records when every step returns.\<close>

definition trigger_events :: "DetectorTrigger \<Rightarrow> int \<Rightarrow> detector_op event list" where
  "trigger_events mode n =
     [Called Op_get_indices_written, Returned Op_get_indices_written,
      Called (Op_arm mode 1 None), Returned (Op_arm mode 1 None),
      Called Op_await_status, Returned Op_await_status,
      Called (Op_wait_for_index (n + 1)), Returned (Op_wait_for_index (n + 1))]"

section \<open>\<^verbatim>\<open>PilatusController\<close>\<close>

text \<open>
  \<^verbatim>\<open>pilatus_driver.py\<close>, \<^verbatim>\<open>ad_base.py\<close> and \<^verbatim>\<open>utils.py\<close> of the area detector
  package are not among the sources. What the controller uses of them is a parameter:
  the members \<^verbatim>\<open>TriggerMode.internal\<close> and \<^verbatim>\<open>TriggerMode.ext_enable\<close>, the member
  \<^verbatim>\<open>ImageMode.multiple\<close>, the \<^verbatim>\<open>set\<close> of the three driver signals, and the helpers
  \<^verbatim>\<open>arm_and_trigger_detector_and_check_status_pv\<close> and \<^verbatim>\<open>stop_busy_record\<close>
  (each an arbitrary coroutine over the world).
\<close>

record 'tm TriggerMode =
  internal :: 'tm
  ext_enable :: 'tm

record 'im ImageMode =
  multiple :: 'im

record ('w, 'tm, 'im) PilatusDriver =
  trigger_mode_set :: "'tm \<Rightarrow> ('w, unit) coro"
  num_images_set :: "int \<Rightarrow> ('w, unit) coro"
  image_mode_set :: "'im \<Rightarrow> ('w, unit) coro"

record ('w, 'tm, 'im) PilatusController =
  driver :: "('w, 'tm, 'im) PilatusDriver"

record ('w, 'tm, 'im) pilatus_deps =
  TriggerMode :: "'tm TriggerMode"
  ImageMode :: "'im ImageMode"
  arm_and_trigger_detector_and_check_status_pv ::
    "('w, 'tm, 'im) PilatusDriver \<Rightarrow> ('w, ('w, unit) coro) coro"
  stop_busy_record :: "('w, 'tm, 'im) PilatusDriver \<Rightarrow> ('w, unit) coro"

datatype ('tm, 'im) pilatus_op =
    Set_trigger_mode 'tm
  | Set_num_images int
  | Set_image_mode 'im
  | Arm_and_trigger
  | Stop_busy_record

type_synonym ('w, 'tm, 'im) pilatus_state = "('w, ('tm, 'im) pilatus_op, unit) pystate"

text \<open>
  \<^verbatim>\<open>
  TRIGGER_MODE = {
      DetectorTrigger.internal: TriggerMode.internal,
      DetectorTrigger.constant_gate: TriggerMode.ext_enable,
      DetectorTrigger.variable_gate: TriggerMode.ext_enable,
  }
  \<close>
  The display is evaluated when the module is loaded: three attribute accesses on
  \<^verbatim>\<open>DetectorTrigger\<close>, then the dict. The value rule of the interpreter is a
  parameter of it, and so of \<^verbatim>\<open>arm\<close>.
\<close>

definition TRIGGER_MODE ::
  "py_value enum_value_rule \<Rightarrow> 'tm TriggerMode \<Rightarrow>
   py_exception + (DetectorTrigger \<times> 'tm) list" where
  "TRIGGER_MODE rule TM =
     bind_result (enum_getattr (DetectorTrigger rule) ''internal'') (\<lambda>k1.
     bind_result (enum_getattr (DetectorTrigger rule) ''constant_gate'') (\<lambda>k2.
     bind_result (enum_getattr (DetectorTrigger rule) ''variable_gate'') (\<lambda>k3.
       Inr (dict_display [(k1, internal TM), (k2, ext_enable TM), (k3, ext_enable TM)]))))"

text \<open>
  \<^verbatim>\<open>
  def get_deadtime(self, exposure: float) -> float:
      return 0.001

  async def arm(self, mode=DetectorTrigger.internal, num=0, exposure=None):
      await asyncio.gather(
          self.driver.trigger_mode.set(TRIGGER_MODE[mode]),
          self.driver.num_images.set(num),
          self.driver.image_mode.set(ImageMode.multiple),
      )
      return await arm_and_trigger_detector_and_check_status_pv(self.driver)

  async def disarm(self):
      await stop_busy_record(self.driver.acquire, False, timeout=1)
  \<close>
  The arguments of \<^verbatim>\<open>gather\<close> are evaluated from left to right before anything is
  awaited, so a \<^verbatim>\<open>KeyError\<close> of \<^verbatim>\<open>TRIGGER_MODE[mode]\<close> comes before any \<^verbatim>\<open>set\<close>.
  The schedule of the gather is a parameter of \<^verbatim>\<open>arm\<close>. \<^verbatim>\<open>stop_busy_record\<close> is
  given the driver whose \<^verbatim>\<open>acquire\<close> signal it stops.
\<close>

definition PilatusController_get_deadtime ::
  "('w, 'tm, 'im) PilatusController \<Rightarrow> real \<Rightarrow> (('w, 'tm, 'im) pilatus_state, real) plain_call" where
  "PilatusController_get_deadtime self exposure s = (s, Inr 0.001)"

definition PilatusController_arm ::
  "py_value enum_value_rule \<Rightarrow> ('w, 'tm, 'im) pilatus_deps \<Rightarrow> nat list \<Rightarrow>
   ('w, 'tm, 'im) PilatusController \<Rightarrow> DetectorTrigger \<Rightarrow> int \<Rightarrow> real option \<Rightarrow>
   (('w, 'tm, 'im) pilatus_state, ('w, unit) coro) coro" where
  "PilatusController_arm rule deps sched self mode num exposure =
     bind (lift_result (TRIGGER_MODE rule (TriggerMode deps))) (\<lambda>trigger_modes.
     bind (lift_result (dict_getitem trigger_modes mode)) (\<lambda>tm.
     bind (gather sched
             [call (Set_trigger_mode tm) (trigger_mode_set (driver self) tm),
              call (Set_num_images num) (num_images_set (driver self) num),
              call (Set_image_mode (multiple (ImageMode deps)))
                   (image_mode_set (driver self) (multiple (ImageMode deps)))]) (\<lambda>_.
     call Arm_and_trigger (arm_and_trigger_detector_and_check_status_pv deps (driver self)))))"

definition PilatusController_disarm ::
  "('w, 'tm, 'im) pilatus_deps \<Rightarrow> ('w, 'tm, 'im) PilatusController \<Rightarrow>
   (('w, 'tm, 'im) pilatus_state, unit) coro" where
  "PilatusController_disarm deps self = call Stop_busy_record (stop_busy_record deps (driver self))"

section \<open>A simulated detector\<close>

text \<open>
  Concrete collaborators on which the statements below are evaluated. The world counts
  the frames written and remembers whether the detector is armed and the file is open.
  Arming returns a status whose completion writes the requested frames; closing the
  writer suspends once before it takes effect; waiting for an index suspends once and
  then times out if the index has not been reached.
\<close>

record sim_world =
  written :: int
  armed :: bool
  opened :: bool

definition sim_control :: "sim_world DetectorControl" where
  "sim_control =
     \<lparr>get_deadtime = (\<lambda>exposure w. (w, Inr 0)),
      arm = (\<lambda>mode num exposure.
               Atomic (\<lambda>w. w\<lparr>armed := True\<rparr>)
                 (\<lambda>_. Return (Suspend (Atomic (\<lambda>w. w\<lparr>written := written w + num\<rparr>)
                                          (\<lambda>_. Return ()))))),
      disarm = Atomic (\<lambda>w. w\<lparr>armed := False\<rparr>) (\<lambda>_. Return ())\<rparr>"

definition sim_writer :: "(sim_world, int) DetectorWriter" where
  "sim_writer =
     \<lparr>DetectorWriter.open = (\<lambda>multiplier.
               Atomic (\<lambda>w. w\<lparr>written := 0, opened := True\<rparr>)
                 (\<lambda>_. Return [(''det'', multiplier)])),
      wait_for_index = (\<lambda>index.
               Suspend (Atomic id (\<lambda>w. if index \<le> written w then Return ()
                                        else Raise TimeoutError))),
      get_indices_written = Atomic id (\<lambda>w. Return (written w)),
      close = Suspend (Atomic (\<lambda>w. w\<lparr>opened := False\<rparr>) (\<lambda>_. Return ()))\<rparr>"

definition sim_detector :: "(sim_world, int) StandardDetector" where
  "sim_detector = \<lparr>control = sim_control, data = sim_writer\<rparr>"

definition sim_world0 :: sim_world where
  "sim_world0 = \<lparr>written = 0, armed = False, opened = False\<rparr>"

text \<open>
  A writer that never reaches the index, and a control whose \<^verbatim>\<open>disarm\<close> raises at
  once.
\<close>

definition stalled_detector :: "(sim_world, int) StandardDetector" where
  "stalled_detector =
     \<lparr>control = sim_control,
      data = sim_writer\<lparr>wait_for_index := (\<lambda>index. Suspend (Raise TimeoutError))\<rparr>\<rparr>"

definition broken_disarm_detector :: "(sim_world, int) StandardDetector" where
  "broken_disarm_detector =
     \<lparr>control = sim_control\<lparr>disarm := Raise (OtherError ''disarm failed'')\<rparr>,
      data = sim_writer\<rparr>"

text \<open>
  A simulated Pilatus driver: the world holds the values of the three signals and of
  \<^verbatim>\<open>acquire\<close>; a \<^verbatim>\<open>set\<close> suspends once and then stores its value.
\<close>

record pilatus_world =
  pv_trigger_mode :: string
  pv_num_images :: int
  pv_image_mode :: string
  pv_acquire :: bool

definition sim_pilatus_driver :: "(pilatus_world, string, string) PilatusDriver" where
  "sim_pilatus_driver =
     \<lparr>trigger_mode_set = (\<lambda>v. Suspend (Atomic (\<lambda>w. w\<lparr>pv_trigger_mode := v\<rparr>) (\<lambda>_. Return ()))),
      num_images_set = (\<lambda>v. Suspend (Atomic (\<lambda>w. w\<lparr>pv_num_images := v\<rparr>) (\<lambda>_. Return ()))),
      image_mode_set = (\<lambda>v. Suspend (Atomic (\<lambda>w. w\<lparr>pv_image_mode := v\<rparr>) (\<lambda>_. Return ())))\<rparr>"

definition sim_pilatus_deps :: "(pilatus_world, string, string) pilatus_deps" where
  "sim_pilatus_deps =
     \<lparr>TriggerMode = \<lparr>internal = ''Internal'', ext_enable = ''Ext. Enable''\<rparr>,
      ImageMode = \<lparr>multiple = ''Multiple''\<rparr>,
      arm_and_trigger_detector_and_check_status_pv = (\<lambda>drv.
         Atomic (\<lambda>w. w\<lparr>pv_acquire := True\<rparr>) (\<lambda>_. Return (Suspend (Return ())))),
      stop_busy_record = (\<lambda>drv. Atomic (\<lambda>w. w\<lparr>pv_acquire := False\<rparr>) (\<lambda>_. Return ()))\<rparr>"

definition sim_pilatus :: "(pilatus_world, string, string) PilatusController" where
  "sim_pilatus = \<lparr>driver = sim_pilatus_driver\<rparr>"

definition pilatus_world0 :: pilatus_world where
  "pilatus_world0 =
     \<lparr>pv_trigger_mode = ''Internal'', pv_num_images = 0,
      pv_image_mode = ''Single'', pv_acquire = False\<rparr>"

definition pilatus_state0 :: "(pilatus_world, string, string) pilatus_state" where
  "pilatus_state0 = \<lparr>world = pilatus_world0, trace = [], attrs = ()\<rparr>"

section \<open>Coroutines: running, binding and tracing\<close>

lemma run_bind:
  "run (bind c f) s = (case run c s of (s1, Inl e) \<Rightarrow> (s1, Inl e) | (s1, Inr a) \<Rightarrow> run (f a) s1)"
  by (induction c arbitrary: s) simp_all

lemma advance_traced:
  "advance (traced n c) s =
     (case advance c (world s) of
        (w1, Finished a) \<Rightarrow> (s\<lparr>world := w1, trace := trace s @ [Returned n]\<rparr>, Finished a)
      | (w1, Failed e) \<Rightarrow> (s\<lparr>world := w1, trace := trace s @ [Raised n e]\<rparr>, Failed e)
      | (w1, Pending c') \<Rightarrow> (s\<lparr>world := w1\<rparr>, Pending (traced n c')))"
  by (induction c arbitrary: s) (simp_all add: log_def on_world_def)

lemma run_traced:
  "run (traced n c) s =
     (case run c (world s) of
        (w1, Inr a) \<Rightarrow> (s\<lparr>world := w1, trace := trace s @ [Returned n]\<rparr>, Inr a)
      | (w1, Inl e) \<Rightarrow> (s\<lparr>world := w1, trace := trace s @ [Raised n e]\<rparr>, Inl e))"
  by (induction c arbitrary: s) (simp_all add: log_def on_world_def)

lemma run_call:
  "run (call n c) s =
     (case run c (world s) of
        (w1, Inr a) \<Rightarrow> (s\<lparr>world := w1, trace := trace s @ [Called n, Returned n]\<rparr>, Inr a)
      | (w1, Inl e) \<Rightarrow> (s\<lparr>world := w1, trace := trace s @ [Called n, Raised n e]\<rparr>, Inl e))"
  by (simp add: call_def run_traced log_def split: prod.splits sum.splits)

section \<open>The invariant of \<^verbatim>\<open>gather\<close> over traced calls\<close>

lemma events_of_append: "events_of n (xs @ ys) = events_of n xs @ events_of n ys"
  by (simp add: events_of_def)

lemma events_of_other: "\<forall>ev\<in>set evs. ev_op ev \<noteq> n \<Longrightarrow> events_of n evs = []"
  by (simp add: events_of_def)

lemma task_inv_other:
  "task_inv evs n out \<Longrightarrow> \<forall>ev\<in>set evs'. ev_op ev \<noteq> n \<Longrightarrow> task_inv (evs @ evs') n out"
  by (simp add: task_inv_def events_of_append events_of_other split: outcome.splits)

lemma task_inv_advance:
  assumes "task_inv evs n (Pending c)" and "advance c s = (s', out)"
  shows "\<exists>evs'. trace s' = trace s @ evs' \<and> attrs s' = attrs s
           \<and> (\<forall>ev\<in>set evs'. ev_op ev = n) \<and> task_inv (evs @ evs') n out"
proof -
  from assms(1) obtain c0 where c: "c = traced n c0" and ev: "events_of n evs = [Called n]"
    by (auto simp: task_inv_def)
  obtain w1 o1 where a: "advance c0 (world s) = (w1, o1)" by (cases "advance c0 (world s)")
  show ?thesis
  proof (cases o1)
    case (Finished a')
    with a c assms(2) have "s' = s\<lparr>world := w1, trace := trace s @ [Returned n]\<rparr>" "out = Finished a'"
      by (simp_all add: advance_traced)
    then show ?thesis using ev
      by (intro exI[of _ "[Returned n]"]) (simp add: task_inv_def events_of_append, simp add: events_of_def)
  next
    case (Failed e)
    with a c assms(2) have "s' = s\<lparr>world := w1, trace := trace s @ [Raised n e]\<rparr>" "out = Failed e"
      by (simp_all add: advance_traced)
    then show ?thesis using ev
      by (intro exI[of _ "[Raised n e]"]) (simp add: task_inv_def events_of_append, simp add: events_of_def)
  next
    case (Pending c')
    with a c assms(2) have "s' = s\<lparr>world := w1\<rparr>" "out = Pending (traced n c')"
      by (simp_all add: advance_traced)
    then show ?thesis using ev
      by (intro exI[of _ "[]"]) (auto simp: task_inv_def)
  qed
qed

lemma task_inv_run:
  fixes s :: "('w, 'op, 'x) pystate" and c :: "(('w, 'op, 'x) pystate, 'a) coro"
  assumes "task_inv evs n (Pending c)" and "run c s = (s', r)"
  shows "\<exists>evs'. trace s' = trace s @ evs' \<and> attrs s' = attrs s
           \<and> (\<forall>ev\<in>set evs'. ev_op ev = n)
           \<and> task_inv (evs @ evs') n
                ((case r of Inl e \<Rightarrow> Failed e | Inr a \<Rightarrow> Finished a)
                   :: (('w, 'op, 'x) pystate, 'a) outcome)"
proof -
  from assms(1) obtain c0 where c: "c = traced n c0" and ev: "events_of n evs = [Called n]"
    by (auto simp: task_inv_def)
  obtain w1 r1 where a: "run c0 (world s) = (w1, r1)" by (cases "run c0 (world s)")
  show ?thesis
  proof (cases r1)
    case (Inr a')
    with a c assms(2) have "s' = s\<lparr>world := w1, trace := trace s @ [Returned n]\<rparr>" "r = Inr a'"
      by (simp_all add: run_traced)
    then show ?thesis using ev
      by (intro exI[of _ "[Returned n]"]) (simp add: task_inv_def events_of_append, simp add: events_of_def)
  next
    case (Inl e)
    with a c assms(2) have "s' = s\<lparr>world := w1, trace := trace s @ [Raised n e]\<rparr>" "r = Inl e"
      by (simp_all add: run_traced)
    then show ?thesis using ev
      by (intro exI[of _ "[Raised n e]"]) (simp add: task_inv_def events_of_append, simp add: events_of_def)
  qed
qed

lemma task_inv_call:
  fixes s :: "('w, 'op, 'x) pystate" and out :: "(('w, 'op, 'x) pystate, 'a) outcome"
  assumes "events_of n evs = []" and "advance (call n c0) s = (s', out)"
  shows "\<exists>evs'. trace s' = trace s @ Called n # evs' \<and> attrs s' = attrs s
           \<and> (\<forall>ev\<in>set evs'. ev_op ev = n) \<and> task_inv (evs @ Called n # evs') n out"
proof -
  have inv: "task_inv (evs @ [Called n]) n (Pending (traced n c0) :: (('w, 'op, 'x) pystate, 'a) outcome)"
    using assms(1) by (auto simp: task_inv_def events_of_append events_of_def)
  from assms(2) have "advance (traced n c0) (log (Called n) s) = (s', out)"
    by (simp add: call_def)
  from task_inv_advance[OF inv this] show ?thesis
    by (auto simp: log_def)
qed

lemma task_inv_called_once:
  "task_inv evs n out \<Longrightarrow> filter (\<lambda>ev. ev = Called n) evs = [Called n]"
proof -
  assume t: "task_inv evs n out"
  have "filter (\<lambda>ev. ev = Called n) evs = filter (\<lambda>ev. ev = Called n) (events_of n evs)"
    by (auto simp: events_of_def intro: filter_cong)
  also have "\<dots> = [Called n]" using t by (auto simp: task_inv_def split: outcome.splits)
  finally show ?thesis .
qed

lemma task_inv_called:
  "task_inv evs n out \<Longrightarrow> Called n \<in> set evs"
proof -
  assume "task_inv evs n out"
  then have "Called n \<in> set (events_of n evs)"
    by (auto simp: task_inv_def split: outcome.splits)
  then show ?thesis by (simp add: events_of_def)
qed

lemma resume_inv:
  fixes s :: "('w, 'op, 'x) pystate" and outs :: "(('w, 'op, 'x) pystate, 'a) outcome list"
  assumes d: "distinct ns" and inv: "list_all2 (task_inv evs) ns outs"
    and r: "resume i outs s = (s', outs')"
  shows "\<exists>evs'. trace s' = trace s @ evs' \<and> attrs s' = attrs s
           \<and> (\<forall>ev\<in>set evs'. ev_op ev \<in> set ns)
           \<and> list_all2 (task_inv (evs @ evs')) ns outs'"
proof (cases "i < length outs \<and> (\<exists>c. outs ! i = Pending c)")
  case False
  then have "s' = s" "outs' = outs" using r
    by (auto simp: resume_def split: outcome.splits)
  then show ?thesis using inv by (intro exI[of _ "[]"]) simp
next
  case True
  then obtain c where i: "i < length outs" and c: "outs ! i = Pending c" by blast
  have len: "length ns = length outs" using inv by (rule list_all2_lengthD)
  from r i c have s': "s' = fst (advance c s)" and outs': "outs' = outs[i := snd (advance c s)]"
    by (simp_all add: resume_def)
  have ti: "task_inv evs (ns ! i) (Pending c)"
    using inv i c len by (metis list_all2_nthD2)
  have adv: "advance c s = (s', snd (advance c s))" using s' by simp
  from task_inv_advance[OF ti adv] obtain evs' where
    e: "trace s' = trace s @ evs'" "attrs s' = attrs s" "\<forall>ev\<in>set evs'. ev_op ev = ns ! i"
       "task_inv (evs @ evs') (ns ! i) (snd (advance c s))" by blast
  have "list_all2 (task_inv (evs @ evs')) ns outs'"
    unfolding list_all2_conv_all_nth
  proof (intro conjI allI impI)
    show "length ns = length outs'" using len outs' by simp
  next
    fix j assume j: "j < length ns"
    show "task_inv (evs @ evs') (ns ! j) (outs' ! j)"
    proof (cases "j = i")
      case True
      then show ?thesis using e(4) outs' i by simp
    next
      case False
      then have "ns ! j \<noteq> ns ! i" using d j i len by (simp add: nth_eq_iff_index_eq)
      then have "\<forall>ev\<in>set evs'. ev_op ev \<noteq> ns ! j" using e(3) by auto
      moreover have "task_inv evs (ns ! j) (outs ! j)" using inv j by (rule list_all2_nthD)
      ultimately show ?thesis using False outs' by (simp add: task_inv_other)
    qed
  qed
  moreover have "\<forall>ev\<in>set evs'. ev_op ev \<in> set ns" using e(3) i len by auto
  ultimately show ?thesis using e(1,2) by blast
qed

lemma run_settle:
  "run (settle c k) s = (case run c s of (s1, r) \<Rightarrow> run (k r) s1)"
  by (induction c arbitrary: s) simp_all

lemma first_failure_in_set: "first_failure outs = Some e \<Longrightarrow> Failed e \<in> set outs"
  by (induction outs rule: first_failure.induct) auto

lemma resume_keeps_failed:
  "Failed e \<in> set outs \<Longrightarrow> Failed e \<in> set (snd (resume i outs s))"
proof -
  assume f: "Failed e \<in> set outs"
  then obtain j where j: "j < length outs" "outs ! j = Failed e" by (auto simp: in_set_conv_nth)
  show ?thesis
  proof (cases "i < length outs \<and> (\<exists>c. outs ! i = Pending c)")
    case False
    then show ?thesis using f by (auto simp: resume_def split: outcome.splits)
  next
    case True
    then obtain c where c: "i < length outs" "outs ! i = Pending c" by blast
    with j have "i \<noteq> j" by auto
    with j have "(outs[i := snd (advance c s)]) ! j = Failed e" by simp
    moreover have "j < length (outs[i := snd (advance c s)])" using j by simp
    ultimately have "Failed e \<in> set (outs[i := snd (advance c s)])"
      by (metis nth_mem)
    then show ?thesis using c by (simp add: resume_def)
  qed
qed

lemma drain_rest_inv:
  fixes s :: "('w, 'op, 'x) pystate" and outs :: "(('w, 'op, 'x) pystate, 'a) outcome list"
  assumes "distinct ns" and "list_all2 (task_inv evs) ns outs"
    and "run (drain_rest outs e :: (('w, 'op, 'x) pystate, 'b) coro) s = (s', r)"
  shows "\<exists>evs' (outs' :: (('w, 'op, 'x) pystate, 'a) outcome list).
           trace s' = trace s @ evs' \<and> attrs s' = attrs s
           \<and> (\<forall>ev\<in>set evs'. ev_op ev \<in> set ns)
           \<and> list_all2 (task_inv (evs @ evs')) ns outs' \<and> r = Inl e"
  using assms
proof (induction outs arbitrary: ns evs s)
  case Nil
  then have "trace s' = trace s @ [] \<and> attrs s' = attrs s
        \<and> (\<forall>ev\<in>set ([] :: 'op event list). ev_op ev \<in> set ns)
        \<and> list_all2 (task_inv (evs @ [])) ns ([] :: (('w, 'op, 'x) pystate, 'a) outcome list)
        \<and> r = Inl e" by simp
  then show ?case by blast
next
  case (Cons out outs)
  from Cons.prems(2) obtain n ns' where ns: "ns = n # ns'"
    and hd: "task_inv evs n out" and tl: "list_all2 (task_inv evs) ns' outs"
    by (auto simp: list_all2_Cons2)
  from Cons.prems(1) ns have d': "distinct ns'" and nn: "n \<notin> set ns'" by auto
  show ?case
  proof (cases "\<exists>c. out = Pending c")
    case False
    then have "run (drain_rest outs e :: (('w, 'op, 'x) pystate, 'b) coro) s = (s', r)"
      using Cons.prems(3) by (cases out) simp_all
    from Cons.IH[OF d' tl this]
    obtain evs' and outs' :: "(('w, 'op, 'x) pystate, 'a) outcome list" where
      ih: "trace s' = trace s @ evs'" "attrs s' = attrs s" "\<forall>ev\<in>set evs'. ev_op ev \<in> set ns'"
          "list_all2 (task_inv (evs @ evs')) ns' outs'" "r = Inl e" by blast
    have "\<forall>ev\<in>set evs'. ev_op ev \<noteq> n" using ih(3) nn by auto
    then have "task_inv (evs @ evs') n out" using hd by (simp add: task_inv_other)
    then have "trace s' = trace s @ evs' \<and> attrs s' = attrs s
        \<and> (\<forall>ev\<in>set evs'. ev_op ev \<in> set ns)
        \<and> list_all2 (task_inv (evs @ evs')) ns (out # outs') \<and> r = Inl e"
      using ih ns by auto
    then show ?thesis by blast
  next
    case True
    then obtain c where c: "out = Pending c" by blast
    obtain s1 r1 where r1: "run c s = (s1, r1)" by (cases "run c s")
    from hd c have "task_inv evs n (Pending c)" by simp
    from task_inv_run[OF this r1] obtain evs1 where
      e1: "trace s1 = trace s @ evs1" "attrs s1 = attrs s" "\<forall>ev\<in>set evs1. ev_op ev = n"
          "task_inv (evs @ evs1) n ((case r1 of Inl e \<Rightarrow> Failed e | Inr a \<Rightarrow> Finished a)
              :: (('w, 'op, 'x) pystate, 'a) outcome)" by blast
    have other1: "\<forall>ev\<in>set evs1. \<forall>m\<in>set ns'. ev_op ev \<noteq> m" using e1(3) nn by auto
    have tl1: "list_all2 (task_inv (evs @ evs1)) ns' outs"
      using tl other1 by (auto simp: list_all2_conv_all_nth intro!: task_inv_other)
    have "run (drain_rest outs e :: (('w, 'op, 'x) pystate, 'b) coro) s1 = (s', r)"
      using Cons.prems(3) c r1 by (simp add: run_settle)
    from Cons.IH[OF d' tl1 this]
    obtain evs2 and outs' :: "(('w, 'op, 'x) pystate, 'a) outcome list" where
      ih: "trace s' = trace s1 @ evs2" "attrs s' = attrs s1" "\<forall>ev\<in>set evs2. ev_op ev \<in> set ns'"
          "list_all2 (task_inv ((evs @ evs1) @ evs2)) ns' outs'" "r = Inl e" by blast
    have no: "\<forall>ev\<in>set evs2. ev_op ev \<noteq> n" using ih(3) nn by auto
    let ?o = "(case r1 of Inl e \<Rightarrow> Failed e | Inr a \<Rightarrow> Finished a)
                :: (('w, 'op, 'x) pystate, 'a) outcome"
    have "task_inv ((evs @ evs1) @ evs2) n ?o" by (rule task_inv_other[OF e1(4) no])
    then have "trace s' = trace s @ (evs1 @ evs2) \<and> attrs s' = attrs s
        \<and> (\<forall>ev\<in>set (evs1 @ evs2). ev_op ev \<in> set ns)
        \<and> list_all2 (task_inv (evs @ (evs1 @ evs2))) ns (?o # outs') \<and> r = Inl e"
      using ih e1(1,2,3) ns by auto
    then show ?thesis by blast
  qed
qed

lemma gather_rest_inv:
  fixes s :: "('w, 'op, 'x) pystate" and outs :: "(('w, 'op, 'x) pystate, 'a) outcome list"
  assumes "distinct ns" and "list_all2 (task_inv evs) ns outs"
    and "run (gather_rest outs) s = (s', r)"
  shows "\<exists>evs' (outs' :: (('w, 'op, 'x) pystate, 'a) outcome list).
           trace s' = trace s @ evs' \<and> attrs s' = attrs s
           \<and> (\<forall>ev\<in>set evs'. ev_op ev \<in> set ns)
           \<and> list_all2 (task_inv (evs @ evs')) ns outs' \<and> agrees r outs'"
  using assms
proof (induction outs arbitrary: ns evs s s' r)
  case Nil
  then have "trace s' = trace s @ [] \<and> attrs s' = attrs s
        \<and> (\<forall>ev\<in>set ([] :: 'op event list). ev_op ev \<in> set ns)
        \<and> list_all2 (task_inv (evs @ [])) ns ([] :: (('w, 'op, 'x) pystate, 'a) outcome list)
        \<and> agrees r ([] :: (('w, 'op, 'x) pystate, 'a) outcome list)"
    by (auto simp: agrees_def)
  then show ?case by blast
next
  case (Cons out outs)
  from Cons.prems(2) obtain n ns' where ns: "ns = n # ns'"
    and hd: "task_inv evs n out" and tl: "list_all2 (task_inv evs) ns' outs"
    by (auto simp: list_all2_Cons2)
  from Cons.prems(1) ns have d': "distinct ns'" and nn: "n \<notin> set ns'" by auto
  show ?case
  proof (cases out)
    case (Failed e)
    with Cons.prems(3) have "run (drain_rest outs e :: (('w, 'op, 'x) pystate, 'a list) coro) s = (s', r)"
      by simp
    from drain_rest_inv[OF d' tl this]
    obtain evs' and outs' :: "(('w, 'op, 'x) pystate, 'a) outcome list" where
      ih: "trace s' = trace s @ evs'" "attrs s' = attrs s" "\<forall>ev\<in>set evs'. ev_op ev \<in> set ns'"
          "list_all2 (task_inv (evs @ evs')) ns' outs'" "r = Inl e" by blast
    have "\<forall>ev\<in>set evs'. ev_op ev \<noteq> n" using ih(3) nn by auto
    then have "task_inv (evs @ evs') n out" using hd by (simp add: task_inv_other)
    then have "trace s' = trace s @ evs' \<and> attrs s' = attrs s
        \<and> (\<forall>ev\<in>set evs'. ev_op ev \<in> set ns)
        \<and> list_all2 (task_inv (evs @ evs')) ns (out # outs') \<and> agrees r (out # outs')"
      using ih ns Failed by (auto simp: agrees_def)
    then show ?thesis by blast
  next
    case (Finished a)
    obtain s1 r1 where r1: "run (gather_rest outs) s = (s1, r1)"
      by (cases "run (gather_rest outs) s")
    from Cons.IH[OF d' tl r1]
    obtain evs' and outs' :: "(('w, 'op, 'x) pystate, 'a) outcome list" where
      ih: "trace s1 = trace s @ evs'" "attrs s1 = attrs s" "\<forall>ev\<in>set evs'. ev_op ev \<in> set ns'"
          "list_all2 (task_inv (evs @ evs')) ns' outs'" "agrees r1 outs'" by blast
    have s1: "s' = s1" and r: "r = (case r1 of Inl e \<Rightarrow> Inl e | Inr as \<Rightarrow> Inr (a # as))"
      using Cons.prems(3) Finished r1 by (auto simp: run_bind split: sum.splits)
    have "\<forall>ev\<in>set evs'. ev_op ev \<noteq> n" using ih(3) nn by auto
    then have "task_inv (evs @ evs') n out" using hd by (simp add: task_inv_other)
    then have "list_all2 (task_inv (evs @ evs')) ns (out # outs')" using ih(4) ns by simp
    moreover have "agrees r (out # outs')" using ih(5) r Finished
      by (auto simp: agrees_def split: sum.splits)
    ultimately have "trace s' = trace s @ evs' \<and> attrs s' = attrs s
        \<and> (\<forall>ev\<in>set evs'. ev_op ev \<in> set ns)
        \<and> list_all2 (task_inv (evs @ evs')) ns (out # outs') \<and> agrees r (out # outs')"
      using ih(1,2,3) s1 ns by auto
    then show ?thesis by blast
  next
    case (Pending c)
    obtain s1 r1 where r1: "run c s = (s1, r1)" by (cases "run c s")
    from hd Pending have "task_inv evs n (Pending c)" by simp
    from task_inv_run[OF this r1] obtain evs1 where
      e1: "trace s1 = trace s @ evs1" "attrs s1 = attrs s" "\<forall>ev\<in>set evs1. ev_op ev = n"
          "task_inv (evs @ evs1) n ((case r1 of Inl e \<Rightarrow> Failed e | Inr a \<Rightarrow> Finished a)
              :: (('w, 'op, 'x) pystate, 'a) outcome)" by blast
    have other1: "\<forall>ev\<in>set evs1. \<forall>m\<in>set ns'. ev_op ev \<noteq> m" using e1(3) nn by auto
    have tl1: "list_all2 (task_inv (evs @ evs1)) ns' outs"
      using tl other1 by (auto simp: list_all2_conv_all_nth intro!: task_inv_other)
    show ?thesis
    proof (cases r1)
      case (Inl e)
      have "run (drain_rest outs e :: (('w, 'op, 'x) pystate, 'a list) coro) s1 = (s', r)"
        using Cons.prems(3) Pending r1 Inl by (simp add: run_settle)
      from drain_rest_inv[OF d' tl1 this]
      obtain evs2 and outs' :: "(('w, 'op, 'x) pystate, 'a) outcome list" where
        ih: "trace s' = trace s1 @ evs2" "attrs s' = attrs s1" "\<forall>ev\<in>set evs2. ev_op ev \<in> set ns'"
            "list_all2 (task_inv ((evs @ evs1) @ evs2)) ns' outs'" "r = Inl e" by blast
      have no: "\<forall>ev\<in>set evs2. ev_op ev \<noteq> n" using ih(3) nn by auto
      from e1(4) Inl
      have f: "task_inv (evs @ evs1) n (Failed e :: (('w, 'op, 'x) pystate, 'a) outcome)" by simp
      have "task_inv ((evs @ evs1) @ evs2) n (Failed e :: (('w, 'op, 'x) pystate, 'a) outcome)"
        by (rule task_inv_other[OF f no])
      then have "trace s' = trace s @ (evs1 @ evs2) \<and> attrs s' = attrs s
          \<and> (\<forall>ev\<in>set (evs1 @ evs2). ev_op ev \<in> set ns)
          \<and> list_all2 (task_inv (evs @ (evs1 @ evs2))) ns (Failed e # outs')
          \<and> agrees r (Failed e # outs')"
        using ih e1(1,2,3) ns by (auto simp: agrees_def)
      then show ?thesis by blast
    next
      case (Inr a)
      obtain s2 r2 where r2: "run (gather_rest outs) s1 = (s2, r2)"
        by (cases "run (gather_rest outs) s1")
      from Cons.IH[OF d' tl1 r2]
      obtain evs2 and outs' :: "(('w, 'op, 'x) pystate, 'a) outcome list" where
        ih: "trace s2 = trace s1 @ evs2" "attrs s2 = attrs s1" "\<forall>ev\<in>set evs2. ev_op ev \<in> set ns'"
            "list_all2 (task_inv ((evs @ evs1) @ evs2)) ns' outs'" "agrees r2 outs'" by blast
      have s2: "s' = s2" and r: "r = (case r2 of Inl e \<Rightarrow> Inl e | Inr as \<Rightarrow> Inr (a # as))"
        using Cons.prems(3) Pending r1 r2 Inr by (auto simp: run_settle run_bind split: sum.splits)
      have no: "\<forall>ev\<in>set evs2. ev_op ev \<noteq> n" using ih(3) nn by auto
      from e1(4) Inr
      have f: "task_inv (evs @ evs1) n (Finished a :: (('w, 'op, 'x) pystate, 'a) outcome)"
        by simp
      have "task_inv ((evs @ evs1) @ evs2) n (Finished a :: (('w, 'op, 'x) pystate, 'a) outcome)"
        by (rule task_inv_other[OF f no])
      then have "list_all2 (task_inv (evs @ evs1 @ evs2)) ns (Finished a # outs')"
        using ih(4) ns by simp
      moreover have "agrees r (Finished a # outs')" using ih(5) r
        by (auto simp: agrees_def split: sum.splits)
      ultimately have "trace s' = trace s @ (evs1 @ evs2) \<and> attrs s' = attrs s
          \<and> (\<forall>ev\<in>set (evs1 @ evs2). ev_op ev \<in> set ns)
          \<and> list_all2 (task_inv (evs @ (evs1 @ evs2))) ns (Finished a # outs')
          \<and> agrees r (Finished a # outs')"
        using ih(1,2,3) e1(1,2,3) s2 ns by auto
      then show ?thesis by blast
    qed
  qed
qed

lemma gather_drain_inv:
  fixes s :: "('w, 'op, 'x) pystate" and outs :: "(('w, 'op, 'x) pystate, 'a) outcome list"
  assumes "distinct ns" and "list_all2 (task_inv evs) ns outs" and "Failed e \<in> set outs"
    and "run (gather_drain sched e outs :: (('w, 'op, 'x) pystate, 'b) coro) s = (s', r)"
  shows "\<exists>evs' (outs' :: (('w, 'op, 'x) pystate, 'a) outcome list).
           trace s' = trace s @ evs' \<and> attrs s' = attrs s
           \<and> (\<forall>ev\<in>set evs'. ev_op ev \<in> set ns)
           \<and> list_all2 (task_inv (evs @ evs')) ns outs' \<and> Failed e \<in> set outs' \<and> r = Inl e"
  using assms
proof (induction sched arbitrary: outs evs s)
  case Nil
  then have "trace s' = trace s @ [] \<and> attrs s' = attrs s
        \<and> (\<forall>ev\<in>set ([] :: 'op event list). ev_op ev \<in> set ns)
        \<and> list_all2 (task_inv (evs @ [])) ns outs \<and> Failed e \<in> set outs \<and> r = Inl e"
    by simp
  then show ?case by blast
next
  case (Cons i sched)
  obtain s1 outs1 where r1: "resume i outs s = (s1, outs1)" by (cases "resume i outs s")
  from resume_inv[OF Cons.prems(1,2) r1] obtain evs1 where
    e1: "trace s1 = trace s @ evs1" "attrs s1 = attrs s"
        "\<forall>ev\<in>set evs1. ev_op ev \<in> set ns"
        "list_all2 (task_inv (evs @ evs1)) ns outs1" by blast
  have f1: "Failed e \<in> set outs1" using resume_keeps_failed[OF Cons.prems(3), of i s] r1 by simp
  have "run (gather_drain sched e outs1 :: (('w, 'op, 'x) pystate, 'b) coro) s1 = (s', r)"
    using Cons.prems(4) r1 by simp
  from Cons.IH[OF Cons.prems(1) e1(4) f1 this]
  obtain evs2 and outs' :: "(('w, 'op, 'x) pystate, 'a) outcome list" where
    e2: "trace s' = trace s1 @ evs2" "attrs s' = attrs s1"
        "\<forall>ev\<in>set evs2. ev_op ev \<in> set ns"
        "list_all2 (task_inv ((evs @ evs1) @ evs2)) ns outs'" "Failed e \<in> set outs'" "r = Inl e"
    by blast
  have "trace s' = trace s @ (evs1 @ evs2) \<and> attrs s' = attrs s
      \<and> (\<forall>ev\<in>set (evs1 @ evs2). ev_op ev \<in> set ns)
      \<and> list_all2 (task_inv (evs @ (evs1 @ evs2))) ns outs' \<and> Failed e \<in> set outs' \<and> r = Inl e"
    using e1(1,2,3) e2 by auto
  then show ?case by blast
qed

lemma gather_loop_inv:
  fixes s :: "('w, 'op, 'x) pystate" and outs :: "(('w, 'op, 'x) pystate, 'a) outcome list"
  assumes "distinct ns" and "list_all2 (task_inv evs) ns outs"
    and "run (gather_loop sched outs) s = (s', r)"
  shows "\<exists>evs' (outs' :: (('w, 'op, 'x) pystate, 'a) outcome list).
           trace s' = trace s @ evs' \<and> attrs s' = attrs s
           \<and> (\<forall>ev\<in>set evs'. ev_op ev \<in> set ns)
           \<and> list_all2 (task_inv (evs @ evs')) ns outs' \<and> agrees r outs'"
  using assms
proof (induction sched arbitrary: outs evs s)
  case Nil
  show ?case
  proof (cases "first_failure outs")
    case None
    with Nil.prems(3) have "run (gather_rest outs) s = (s', r)" by simp
    from gather_rest_inv[OF Nil.prems(1,2) this] show ?thesis .
  next
    case (Some e)
    with Nil.prems(3) have "s' = s" "r = Inl e" by simp_all
    then have "trace s' = trace s @ [] \<and> attrs s' = attrs s
        \<and> (\<forall>ev\<in>set ([] :: 'op event list). ev_op ev \<in> set ns)
        \<and> list_all2 (task_inv (evs @ [])) ns outs \<and> agrees r outs"
      using Nil.prems(2) first_failure_in_set[OF Some] by (simp add: agrees_def)
    then show ?thesis by blast
  qed
next
  case (Cons i sched)
  show ?case
  proof (cases "first_failure outs")
    case (Some e)
    with Cons.prems(3)
    have "run (gather_drain (i # sched) e outs :: (('w, 'op, 'x) pystate, 'a list) coro) s = (s', r)"
      by simp
    from gather_drain_inv[OF Cons.prems(1,2) first_failure_in_set[OF Some] this]
    obtain evs' and outs' :: "(('w, 'op, 'x) pystate, 'a) outcome list" where
      "trace s' = trace s @ evs'" "attrs s' = attrs s" "\<forall>ev\<in>set evs'. ev_op ev \<in> set ns"
      "list_all2 (task_inv (evs @ evs')) ns outs'" "Failed e \<in> set outs'" "r = Inl e" by blast
    then have "trace s' = trace s @ evs' \<and> attrs s' = attrs s
        \<and> (\<forall>ev\<in>set evs'. ev_op ev \<in> set ns)
        \<and> list_all2 (task_inv (evs @ evs')) ns outs' \<and> agrees r outs'"
      by (simp add: agrees_def)
    then show ?thesis by blast
  next
    case None
    show ?thesis
    proof (cases "results outs")
      case (Some as)
      with None Cons.prems(3) have "s' = s" "r = Inr as" by simp_all
      then have "trace s' = trace s @ [] \<and> attrs s' = attrs s
          \<and> (\<forall>ev\<in>set ([] :: 'op event list). ev_op ev \<in> set ns)
          \<and> list_all2 (task_inv (evs @ [])) ns outs \<and> agrees r outs"
        using Cons.prems(2) Some by (simp add: agrees_def)
      then show ?thesis by blast
    next
      case N2: None
      obtain s1 outs1 where r1: "resume i outs s = (s1, outs1)" by (cases "resume i outs s")
      from resume_inv[OF Cons.prems(1,2) r1] obtain evs1 where
        e1: "trace s1 = trace s @ evs1" "attrs s1 = attrs s"
            "\<forall>ev\<in>set evs1. ev_op ev \<in> set ns"
            "list_all2 (task_inv (evs @ evs1)) ns outs1" by blast
      from Cons.prems(3) None N2 r1 have "run (gather_loop sched outs1) s1 = (s', r)" by simp
      from Cons.IH[OF Cons.prems(1) e1(4) this]
      obtain evs2 and outs' :: "(('w, 'op, 'x) pystate, 'a) outcome list" where
        e2: "trace s' = trace s1 @ evs2" "attrs s' = attrs s1"
            "\<forall>ev\<in>set evs2. ev_op ev \<in> set ns"
            "list_all2 (task_inv ((evs @ evs1) @ evs2)) ns outs'" "agrees r outs'" by blast
      have "trace s' = trace s @ (evs1 @ evs2) \<and> attrs s' = attrs s
          \<and> (\<forall>ev\<in>set (evs1 @ evs2). ev_op ev \<in> set ns)
          \<and> list_all2 (task_inv (evs @ (evs1 @ evs2))) ns outs' \<and> agrees r outs'"
        using e1(1,2,3) e2 by auto
      then show ?thesis by blast
    qed
  qed
qed

lemma gather_start_inv:
  fixes s :: "('w, 'op, 'x) pystate" and started :: "(('w, 'op, 'x) pystate, 'a) outcome list"
  assumes "distinct (ns0 @ map fst ncs)" and "list_all2 (task_inv evs) ns0 started"
    and "\<forall>ev\<in>set evs. ev_op ev \<in> set ns0"
    and "run (gather_start sched started (map (\<lambda>(n, c). call n c) ncs)) s = (s', r)"
  shows "\<exists>evs' (outs' :: (('w, 'op, 'x) pystate, 'a) outcome list).
           trace s' = trace s @ evs' \<and> attrs s' = attrs s
           \<and> (\<forall>ev\<in>set evs'. ev_op ev \<in> set (ns0 @ map fst ncs))
           \<and> list_all2 (task_inv (evs @ evs')) (ns0 @ map fst ncs) outs' \<and> agrees r outs'"
  using assms
proof (induction ncs arbitrary: ns0 started evs s)
  case Nil
  then have "run (gather_loop sched started) s = (s', r)" by simp
  from gather_loop_inv[OF _ _ this, of ns0 evs] Nil.prems(1,2) show ?case by simp
next
  case (Cons nc ncs)
  obtain n c where nc: "nc = (n, c)" by (cases nc)
  obtain s1 out where a: "advance (call n c :: (('w, 'op, 'x) pystate, 'a) coro) s = (s1, out)"
    by (cases "advance (call n c :: (('w, 'op, 'x) pystate, 'a) coro) s")
  have n0: "n \<notin> set ns0" using Cons.prems(1) nc by auto
  then have "events_of n evs = []" using Cons.prems(3) by (auto simp: events_of_def filter_empty_conv)
  from task_inv_call[OF this a] obtain evs1 where
    e1: "trace s1 = trace s @ Called n # evs1" "attrs s1 = attrs s"
        "\<forall>ev\<in>set evs1. ev_op ev = n" "task_inv (evs @ Called n # evs1) n out" by blast
  have other: "\<forall>ev\<in>set (Called n # evs1). \<forall>m\<in>set ns0. ev_op ev \<noteq> m" using e1(3) n0 by auto
  have "list_all2 (task_inv (evs @ Called n # evs1)) ns0 started"
    using Cons.prems(2) other by (auto simp: list_all2_conv_all_nth intro!: task_inv_other)
  then have inv1: "list_all2 (task_inv (evs @ Called n # evs1)) (ns0 @ [n]) (started @ [out])"
    using e1(4) by (simp add: list_all2_appendI)
  have d1: "distinct ((ns0 @ [n]) @ map fst ncs)" using Cons.prems(1) nc by simp
  have ev1: "\<forall>ev\<in>set (evs @ Called n # evs1). ev_op ev \<in> set (ns0 @ [n])"
    using Cons.prems(3) e1(3) by auto
  have run1: "run (gather_start sched (started @ [out]) (map (\<lambda>(n, c). call n c) ncs)) s1 = (s', r)"
    using Cons.prems(4) nc a by simp
  from Cons.IH[OF d1 inv1 ev1 run1]
  obtain evs2 and outs' :: "(('w, 'op, 'x) pystate, 'a) outcome list" where
    e2: "trace s' = trace s1 @ evs2" "attrs s' = attrs s1"
        "\<forall>ev\<in>set evs2. ev_op ev \<in> set ((ns0 @ [n]) @ map fst ncs)"
        "list_all2 (task_inv ((evs @ Called n # evs1) @ evs2)) ((ns0 @ [n]) @ map fst ncs) outs'"
        "agrees r outs'" by blast
  have "trace s' = trace s @ (Called n # evs1 @ evs2) \<and> attrs s' = attrs s
      \<and> (\<forall>ev\<in>set (Called n # evs1 @ evs2). ev_op ev \<in> set (ns0 @ map fst (nc # ncs)))
      \<and> list_all2 (task_inv (evs @ (Called n # evs1 @ evs2))) (ns0 @ map fst (nc # ncs)) outs'
      \<and> agrees r outs'"
    using e1(1,2,3) e2 nc by auto
  then show ?case by blast
qed

lemma gather_calls_inv:
  fixes s :: "('w, 'op, 'x) pystate" and c :: "('w, 'a) coro"
  assumes d: "distinct (n # map fst ncs)"
    and r: "run (gather sched (call n c # map (\<lambda>(n, c). call n c) ncs)) s = (s', r)"
  shows "\<exists>evs (outs :: (('w, 'op, 'x) pystate, 'a) outcome list).
           trace s' = trace s @ Called n # evs \<and> attrs s' = attrs s
           \<and> (\<forall>ev\<in>set evs. ev_op ev \<in> set (n # map fst ncs))
           \<and> list_all2 (task_inv (Called n # evs)) (n # map fst ncs) outs \<and> agrees r outs"
proof -
  obtain s1 out where a: "advance (call n c :: (('w, 'op, 'x) pystate, 'a) coro) s = (s1, out)"
    by (cases "advance (call n c :: (('w, 'op, 'x) pystate, 'a) coro) s")
  have "events_of n ([] :: 'op event list) = []" by (simp add: events_of_def)
  from task_inv_call[OF this a] obtain evs1 where
    e1: "trace s1 = trace s @ Called n # evs1" "attrs s1 = attrs s"
        "\<forall>ev\<in>set evs1. ev_op ev = n" "task_inv (Called n # evs1) n out" by auto
  have inv1: "list_all2 (task_inv (Called n # evs1)) [n] [out]" using e1(4) by simp
  have ev1: "\<forall>ev\<in>set (Called n # evs1). ev_op ev \<in> set [n]" using e1(3) by simp
  have d1: "distinct ([n] @ map fst ncs)" using d by simp
  have run1: "run (gather_start sched [out] (map (\<lambda>(n, c). call n c) ncs)) s1 = (s', r)"
    using r a by (simp add: gather_def)
  from gather_start_inv[OF d1 inv1 ev1 run1]
  obtain evs2 and outs :: "(('w, 'op, 'x) pystate, 'a) outcome list" where
    e2: "trace s' = trace s1 @ evs2" "attrs s' = attrs s1"
        "\<forall>ev\<in>set evs2. ev_op ev \<in> set ([n] @ map fst ncs)"
        "list_all2 (task_inv ((Called n # evs1) @ evs2)) ([n] @ map fst ncs) outs"
        "agrees r outs" by blast
  have "trace s' = trace s @ Called n # (evs1 @ evs2) \<and> attrs s' = attrs s
      \<and> (\<forall>ev\<in>set (evs1 @ evs2). ev_op ev \<in> set (n # map fst ncs))
      \<and> list_all2 (task_inv (Called n # (evs1 @ evs2))) (n # map fst ncs) outs \<and> agrees r outs"
    using e1(1,2,3) e2 by auto
  then show ?thesis by blast
qed

lemma gather_second_started:
  fixes s :: "('w, 'op, 'x) pystate" and c1 c2 :: "('w, 'a) coro"
  assumes d: "n1 \<noteq> n2"
    and p: "advance c1 (world s) = (w, Pending c1')"
    and r: "run (gather sched [call n1 c1, call n2 c2]) s = (s', r)"
  shows "\<exists>evs. trace s' = trace s @ Called n1 # Called n2 # evs"
proof -
  let ?s1 = "s\<lparr>trace := trace s @ [Called n1], world := w\<rparr>"
  let ?o1 = "Pending (traced n1 c1') :: (('w, 'op, 'x) pystate, 'a) outcome"
  have a1: "advance (call n1 c1 :: (('w, 'op, 'x) pystate, 'a) coro) s = (?s1, ?o1)"
    using p by (simp add: call_def advance_traced log_def)
  obtain s2 o2 where a2: "advance (call n2 c2 :: (('w, 'op, 'x) pystate, 'a) coro) ?s1 = (s2, o2)"
    by (cases "advance (call n2 c2 :: (('w, 'op, 'x) pystate, 'a) coro) ?s1")
  have "events_of n2 [Called n1] = []" using d by (simp add: events_of_def)
  from task_inv_call[OF this a2] obtain evs2 where
    e2: "trace s2 = trace ?s1 @ Called n2 # evs2" "\<forall>ev\<in>set evs2. ev_op ev = n2"
        "task_inv ([Called n1] @ Called n2 # evs2) n2 o2" by auto
  have "task_inv [Called n1] n1 ?o1" by (auto simp: task_inv_def events_of_def)
  then have "task_inv ([Called n1] @ Called n2 # evs2) n1 ?o1"
    using e2(2) d by (intro task_inv_other) auto
  then have inv: "list_all2 (task_inv ([Called n1] @ Called n2 # evs2)) [n1, n2] [?o1, o2]"
    using e2(3) by simp
  have "run (gather_loop sched [?o1, o2]) s2 = (s', r)"
    using r a1 a2 by (simp add: gather_def)
  from gather_loop_inv[OF _ inv this] d obtain evs3 where "trace s' = trace s2 @ evs3" by auto
  then show ?thesis using e2(1) by simp
qed

lemma agrees_two_returned:
  "agrees (Inr as) [o1, o2] \<Longrightarrow> (\<exists>a. o1 = Finished a) \<and> (\<exists>b. o2 = Finished b)"
  by (cases o1; cases o2) (auto simp: agrees_def)

lemma agrees_two_raised:
  "agrees (Inl e) [o1, o2] \<Longrightarrow> o1 = Failed e \<or> o2 = Failed e"
  by (cases o1; cases o2) (auto simp: agrees_def)

lemma two_ops_shuffle:
  assumes "\<forall>ev\<in>set xs. ev_op ev = a \<or> ev_op ev = b" and "a \<noteq> b"
  shows "xs \<in> shuffles (events_of a xs) (events_of b xs)"
proof -
  have "filter (\<lambda>ev. \<not> ev_op ev = a) xs = filter (\<lambda>ev. ev_op ev = b) xs"
    using assms by (intro filter_cong) auto
  with partition_in_shuffles[of xs "\<lambda>ev. ev_op ev = a"] show ?thesis
    by (simp add: events_of_def)
qed

section \<open>\<^verbatim>\<open>DetectorTrigger\<close>\<close>

lemma getattr_internal:
  "enum_getattr (DetectorTrigger rule) ''internal'' =
     Inr \<lparr>member_name = ''internal'', member_value = rule 0 (Tuple [])\<rparr>"
  by (simp add: enum_getattr_def DetectorTrigger_def EnumType_new_def split: option.splits)

lemma DetectorTrigger_map:
  assumes "\<forall>i. rule i (Tuple []) = Tuple []"
  shows "DetectorTrigger rule =
     [(''internal'', \<lparr>member_name = ''internal'', member_value = Tuple []\<rparr>),
      (''edge_trigger'', \<lparr>member_name = ''internal'', member_value = Tuple []\<rparr>),
      (''constant_gate'', \<lparr>member_name = ''internal'', member_value = Tuple []\<rparr>),
      (''variable_gate'', \<lparr>member_name = ''internal'', member_value = Tuple []\<rparr>)]"
  by (simp add: DetectorTrigger_def EnumType_new_def assms)

lemma getattr_DetectorTrigger:
  assumes "\<forall>i. rule i (Tuple []) = Tuple []"
    and "enum_getattr (DetectorTrigger rule) name = Inr mode"
  shows "mode = \<lparr>member_name = ''internal'', member_value = Tuple []\<rparr>"
  using assms(2) DetectorTrigger_map[of rule] assms(1)
  by (auto simp: enum_getattr_def split: if_splits)

lemma DetectorTrigger_new_objects:
  "DetectorTrigger new_object_for_empty_tuple =
     [(''internal'', \<lparr>member_name = ''internal'', member_value = Object 0\<rparr>),
      (''edge_trigger'', \<lparr>member_name = ''edge_trigger'', member_value = Object 1\<rparr>),
      (''constant_gate'', \<lparr>member_name = ''constant_gate'', member_value = Object 2\<rparr>),
      (''variable_gate'', \<lparr>member_name = ''variable_gate'', member_value = Object 3\<rparr>)]"
  by (simp add: DetectorTrigger_def EnumType_new_def new_object_for_empty_tuple_def)

text \<open>
  Claim C2. What the class body of \<^verbatim>\<open>DetectorTrigger\<close> builds under the documented
  value rule: the four values are the same empty tuple, so the names
  \<^verbatim>\<open>edge_trigger\<close>, \<^verbatim>\<open>constant_gate\<close> and \<^verbatim>\<open>variable_gate\<close> are aliases of
  the member \<^verbatim>\<open>internal\<close>. The four attribute accesses give one and the same
  member, and the class has that single member.
\<close>

theorem DetectorTrigger_members_are_aliases:
  "enum_getattr (DetectorTrigger value_as_written) ''internal'' =
     Inr \<lparr>member_name = ''internal'', member_value = Tuple []\<rparr>
   \<and> enum_getattr (DetectorTrigger value_as_written) ''edge_trigger''
       = enum_getattr (DetectorTrigger value_as_written) ''internal''
   \<and> enum_getattr (DetectorTrigger value_as_written) ''constant_gate''
       = enum_getattr (DetectorTrigger value_as_written) ''internal''
   \<and> enum_getattr (DetectorTrigger value_as_written) ''variable_gate''
       = enum_getattr (DetectorTrigger value_as_written) ''internal''
   \<and> enum_iter (DetectorTrigger value_as_written)
       = [\<lparr>member_name = ''internal'', member_value = Tuple []\<rparr>]"
  by (simp add: enum_getattr_def enum_iter_def DetectorTrigger_map value_as_written_def)

section \<open>\<^verbatim>\<open>StandardDetector.trigger\<close>\<close>

lemmas sim_defs = sim_detector_def sim_control_def sim_writer_def sim_world0_def
  StandardDetector_init_def value_as_written_def

lemma trigger_run:
  assumes "enum_getattr (DetectorTrigger rule) ''internal'' = Inr mode"
  shows "run (trigger rule self) s =
     (case run (get_indices_written (data self)) (world s) of
        (w1, Inl e) \<Rightarrow>
          (s\<lparr>world := w1,
              trace := trace s @ take 1 (trigger_events mode 0)
                 @ [Raised Op_get_indices_written e]\<rparr>,
           Inl e)
      | (w1, Inr n) \<Rightarrow>
          (case run (arm (control self) mode 1 None) w1 of
             (w2, Inl e) \<Rightarrow>
               (s\<lparr>world := w2,
                   trace := trace s @ take 3 (trigger_events mode n)
                      @ [Raised (Op_arm mode 1 None) e]\<rparr>,
                Inl e)
           | (w2, Inr status) \<Rightarrow>
               (case run status w2 of
                  (w3, Inl e) \<Rightarrow>
                    (s\<lparr>world := w3,
                        trace := trace s @ take 5 (trigger_events mode n)
                           @ [Raised Op_await_status e]\<rparr>,
                     Inl e)
                | (w3, Inr _) \<Rightarrow>
                    (case run (wait_for_index (data self) (n + 1)) w3 of
                       (w4, Inl e) \<Rightarrow>
                         (s\<lparr>world := w4,
                             trace := trace s @ take 7 (trigger_events mode n)
                                @ [Raised (Op_wait_for_index (n + 1)) e]\<rparr>,
                          Inl e)
                     | (w4, Inr _) \<Rightarrow>
                         (s\<lparr>world := w4, trace := trace s @ trigger_events mode n\<rparr>,
                          Inr ())))))"
  by (simp add: trigger_def run_bind run_call lift_result_def assms trigger_events_def
           split: prod.splits sum.splits)

text \<open>
  Claim C1. Every run of \<^verbatim>\<open>trigger()\<close> extends the trace by its own events only. When
  it returns, these are, in this order: the call and return of
  \<^verbatim>\<open>get_indices_written()\<close>, giving \<open>n\<close>; the call and return of
  \<^verbatim>\<open>control.arm(DetectorTrigger.internal, 1)\<close>, giving a status; the await of that
  status to its completion; and the call and return of \<^verbatim>\<open>wait_for_index(n + 1)\<close>,
  each step running in the world the step before left. In any run, returning or not,
  \<^verbatim>\<open>wait_for_index\<close> is called with no other index than \<open>n + 1\<close> and its call stands
  right after the completion of the status await.
\<close>

theorem trigger_steps_in_order:
  assumes "run (trigger rule self) s = (s', r)"
  shows "\<exists>mode evs.
      enum_getattr (DetectorTrigger rule) ''internal'' = Inr mode
    \<and> trace s' = trace s @ evs
    \<and> (\<forall>u. r = Inr u \<longrightarrow>
          (\<exists>n w1 status w2 w3.
              run (get_indices_written (data self)) (world s) = (w1, Inr n)
            \<and> run (arm (control self) mode 1 None) w1 = (w2, Inr status)
            \<and> run status w2 = (w3, Inr ())
            \<and> run (wait_for_index (data self) (n + 1)) w3 = (world s', Inr ())
            \<and> evs = trigger_events mode n))
    \<and> (\<forall>k. Called (Op_wait_for_index k) \<in> set evs \<longrightarrow>
          (\<exists>w1. run (get_indices_written (data self)) (world s) = (w1, Inr (k - 1)))
        \<and> (\<exists>post. evs = take 5 (trigger_events mode (k - 1))
                       @ [Returned Op_await_status, Called (Op_wait_for_index k)] @ post))"
proof -
  let ?m = "\<lparr>member_name = ''internal'', member_value = rule 0 (Tuple [])\<rparr>"
  have g: "enum_getattr (DetectorTrigger rule) ''internal'' = Inr ?m" by (rule getattr_internal)
  obtain w1 r1 where r1: "run (get_indices_written (data self)) (world s) = (w1, r1)"
    by (cases "run (get_indices_written (data self)) (world s)")
  show ?thesis
  proof (cases r1)
    case (Inl e)
    with assms r1 show ?thesis
      by (intro exI[of _ ?m]) (auto simp: trigger_run[OF g] g trigger_events_def)
  next
    case n: (Inr n)
    obtain w2 r2 where r2: "run (arm (control self) ?m 1 None) w1 = (w2, r2)"
      by (cases "run (arm (control self) ?m 1 None) w1")
    show ?thesis
    proof (cases r2)
      case (Inl e)
      with assms r1 n r2 show ?thesis
        by (intro exI[of _ ?m]) (auto simp: trigger_run[OF g] g trigger_events_def)
    next
      case st: (Inr status)
      obtain w3 r3 where r3: "run status w2 = (w3, r3)" by (cases "run status w2")
      show ?thesis
      proof (cases r3)
        case (Inl e)
        with assms r1 n r2 st r3 show ?thesis
          by (intro exI[of _ ?m]) (auto simp: trigger_run[OF g] g trigger_events_def)
      next
        case u: (Inr u3)
        obtain w4 r4 where r4: "run (wait_for_index (data self) (n + 1)) w3 = (w4, r4)"
          by (cases "run (wait_for_index (data self) (n + 1)) w3")
        show ?thesis
        proof (cases r4)
          case (Inl e)
          with assms r1 n r2 st r3 u r4 show ?thesis
            by (intro exI[of _ ?m]) (auto simp: trigger_run[OF g] g trigger_events_def)
        next
          case (Inr u4)
          with assms r1 n r2 st r3 u r4 show ?thesis
            by (intro exI[of _ ?m]) (auto simp: trigger_run[OF g] g trigger_events_def)
        qed
      qed
    qed
  qed
qed

text \<open>The simulated detector, triggered once from its initial state.\<close>

theorem trigger_steps_in_order_witness:
  "run (trigger value_as_written sim_detector) (StandardDetector_init sim_world0) =
     (\<lparr>world = \<lparr>written = 1, armed = True, opened = False\<rparr>,
       trace = trigger_events \<lparr>member_name = ''internal'', member_value = Tuple []\<rparr> 0,
       attrs = []\<rparr>, Inr ())
   \<and> run (get_indices_written (data sim_detector)) sim_world0 = (sim_world0, Inr 0)
   \<and> Called (Op_wait_for_index 1)
        \<in> set (trigger_events \<lparr>member_name = ''internal'', member_value = Tuple []\<rparr> 0)"
proof -
  have h: "run (trigger value_as_written sim_detector) (StandardDetector_init sim_world0) =
     (\<lparr>world = \<lparr>written = 1, armed = True, opened = False\<rparr>,
       trace = trigger_events \<lparr>member_name = ''internal'', member_value = Tuple []\<rparr> 0,
       attrs = []\<rparr>, Inr ())"
    by (simp add: trigger_run[OF getattr_internal] sim_defs)
  from trigger_steps_in_order[OF h] show ?thesis
    using h by (auto simp: sim_defs trigger_events_def getattr_internal)
qed

text \<open>
  Claim C5. If the await of the arm status or the wait for the index raises \<open>e\<close> during
  \<^verbatim>\<open>trigger()\<close>, then \<^verbatim>\<open>trigger()\<close> raises \<open>e\<close>, the raise is the last event
  of the run, no \<^verbatim>\<open>disarm\<close> and no \<^verbatim>\<open>close\<close> is called in it, and the one call
  of \<^verbatim>\<open>arm\<close> is the only call of \<^verbatim>\<open>arm\<close>.
\<close>

theorem trigger_failure_leaves_armed:
  assumes "run (trigger rule self) s = (s', r)"
    and "trace s' = trace s @ evs"
    and "Raised Op_await_status e \<in> set evs \<or> (\<exists>k. Raised (Op_wait_for_index k) e \<in> set evs)"
  shows "r = Inl e
    \<and> (last evs = Raised Op_await_status e \<or> (\<exists>k. last evs = Raised (Op_wait_for_index k) e))
    \<and> Called Op_disarm \<notin> set evs
    \<and> Called Op_close \<notin> set evs
    \<and> length (filter (\<lambda>ev. \<exists>mode num exposure. ev = Called (Op_arm mode num exposure)) evs) = 1"
proof -
  let ?m = "\<lparr>member_name = ''internal'', member_value = rule 0 (Tuple [])\<rparr>"
  have g: "enum_getattr (DetectorTrigger rule) ''internal'' = Inr ?m" by (rule getattr_internal)
  obtain w1 r1 where r1: "run (get_indices_written (data self)) (world s) = (w1, r1)"
    by (cases "run (get_indices_written (data self)) (world s)")
  show ?thesis
  proof (cases r1)
    case (Inl e1)
    with assms r1 show ?thesis
      by (auto simp: trigger_run[OF g] trigger_events_def)
  next
    case n: (Inr n)
    obtain w2 r2 where r2: "run (arm (control self) ?m 1 None) w1 = (w2, r2)"
      by (cases "run (arm (control self) ?m 1 None) w1")
    show ?thesis
    proof (cases r2)
      case (Inl e2)
      with assms r1 n r2 show ?thesis
        by (auto simp: trigger_run[OF g] trigger_events_def)
    next
      case st: (Inr status)
      obtain w3 r3 where r3: "run status w2 = (w3, r3)" by (cases "run status w2")
      show ?thesis
      proof (cases r3)
        case (Inl e3)
        with assms r1 n r2 st r3 show ?thesis
          by (auto simp: trigger_run[OF g] trigger_events_def)
      next
        case u: (Inr u3)
        obtain w4 r4 where r4: "run (wait_for_index (data self) (n + 1)) w3 = (w4, r4)"
          by (cases "run (wait_for_index (data self) (n + 1)) w3")
        show ?thesis
        proof (cases r4)
          case (Inl e4)
          with assms r1 n r2 st r3 u r4 show ?thesis
            by (auto simp: trigger_run[OF g] trigger_events_def)
        next
          case (Inr u4)
          with assms r1 n r2 st r3 u r4 show ?thesis
            by (auto simp: trigger_run[OF g] trigger_events_def)
        qed
      qed
    qed
  qed
qed

text \<open>A trigger on the writer that never reaches the index: the detector stays armed.\<close>

theorem trigger_failure_leaves_armed_witness:
  "run (trigger value_as_written stalled_detector) (StandardDetector_init sim_world0) =
     (\<lparr>world = \<lparr>written = 1, armed = True, opened = False\<rparr>,
       trace = take 7 (trigger_events \<lparr>member_name = ''internal'', member_value = Tuple []\<rparr> 0)
                 @ [Raised (Op_wait_for_index 1) TimeoutError],
       attrs = []\<rparr>, Inl TimeoutError)
   \<and> Called Op_disarm \<notin> set (take 7 (trigger_events \<lparr>member_name = ''internal'', member_value = Tuple []\<rparr> 0)
                 @ [Raised (Op_wait_for_index 1) TimeoutError])"
proof -
  let ?evs = "take 7 (trigger_events \<lparr>member_name = ''internal'', member_value = Tuple []\<rparr> 0)
                 @ [Raised (Op_wait_for_index 1) TimeoutError]"
  have h: "run (trigger value_as_written stalled_detector) (StandardDetector_init sim_world0) =
     (\<lparr>world = \<lparr>written = 1, armed = True, opened = False\<rparr>, trace = ?evs, attrs = []\<rparr>,
      Inl TimeoutError)"
    by (simp add: trigger_run[OF getattr_internal] sim_defs stalled_detector_def trigger_events_def)
  have t: "trace \<lparr>world = \<lparr>written = 1, armed = True, opened = False\<rparr>, trace = ?evs,
                   attrs = ([] :: (string \<times> int) list)\<rparr>
           = trace (StandardDetector_init sim_world0 :: (sim_world, int) detector_state) @ ?evs"
    by (simp add: StandardDetector_init_def)
  have r: "Raised Op_await_status TimeoutError \<in> set ?evs
           \<or> (\<exists>k. Raised (Op_wait_for_index k) TimeoutError \<in> set ?evs)"
    by (simp add: trigger_events_def)
  from trigger_failure_leaves_armed[OF h t r] h show ?thesis by simp
qed



section \<open>\<^verbatim>\<open>StandardDetector.stage\<close>\<close>

lemmas gather_eval = stage_def stage_gather_def gather_def call_def log_def on_world_def
  resume_def run_bind

lemma stage_run:
  "run (stage sched self) s =
     (case run (stage_gather sched self) s of
        (s1, Inl e) \<Rightarrow> (s1, Inl e)
      | (s1, Inr _) \<Rightarrow>
          (case run (DetectorWriter.open (data self) 1) (world s1) of
             (w2, Inl e) \<Rightarrow>
               (s1\<lparr>world := w2,
                    trace := trace s1 @ [Called (Op_open 1), Raised (Op_open 1) e]\<rparr>, Inl e)
           | (w2, Inr d) \<Rightarrow>
               (s1\<lparr>world := w2,
                    trace := trace s1 @ [Called (Op_open 1), Returned (Op_open 1)],
                    attrs := d\<rparr>, Inr ())))"
  by (simp add: stage_def run_bind run_call split: prod.splits sum.splits)

lemma stage_gather_inv:
  fixes s s1 :: "('w, 'd) detector_state"
  assumes "run (stage_gather sched self) s = (s1, r1)"
  shows "\<exists>evs o1 o2.
           trace s1 = trace s @ Called Op_close # evs \<and> attrs s1 = attrs s
           \<and> (\<forall>ev\<in>set evs. ev_op ev = Op_close \<or> ev_op ev = Op_disarm)
           \<and> task_inv (Called Op_close # evs) Op_close (o1 :: ((('w, 'd) detector_state), unit) outcome)
           \<and> task_inv (Called Op_close # evs) Op_disarm (o2 :: ((('w, 'd) detector_state), unit) outcome)
           \<and> agrees r1 [o1, o2]"
proof -
  have d: "distinct (Op_close # map fst [(Op_disarm, disarm (control self))])" by simp
  have r: "run (gather sched (call Op_close (close (data self))
             # map (\<lambda>(n, c). call n c) [(Op_disarm, disarm (control self))])) s = (s1, r1)"
    using assms by (simp add: stage_gather_def)
  from gather_calls_inv[OF d r] show ?thesis
    by (auto simp: list_all2_Cons1)
qed

lemma stage_trace_shape:
  fixes s s' :: "('w, 'd) detector_state"
  assumes "run (stage sched self) s = (s', r)" and "trace s' = trace s @ tr"
  shows "hd tr = Called Op_close \<and> Called Op_disarm \<in> set tr
    \<and> ((\<exists>w c. advance (close (data self)) (world s) = (w, Pending c))
          \<longrightarrow> tr ! 1 = Called Op_disarm)
    \<and> (\<forall>k. Called (Op_open k) \<in> set tr \<longrightarrow>
          k = 1 \<and> (\<exists>evs rest. tr = evs @ Called (Op_open 1) # rest
                     \<and> evs \<in> shuffles [Called Op_close, Returned Op_close]
                                        [Called Op_disarm, Returned Op_disarm]))
    \<and> (\<forall>u. r = Inr u \<longrightarrow>
          (\<exists>s1 res d. run (stage_gather sched self) s = (s1, Inr res)
             \<and> run (DetectorWriter.open (data self) 1) (world s1) = (world s', Inr d)
             \<and> describe s' = (s', Inr d)
             \<and> last tr = Returned (Op_open 1)))"
proof -
  obtain s1 r1 where g: "run (stage_gather sched self) s = (s1, r1)"
    by (cases "run (stage_gather sched self) s")
  from stage_gather_inv[OF g]
  obtain evs and o1 o2 :: "((('w, 'd) detector_state), unit) outcome" where
    e: "trace s1 = trace s @ Called Op_close # evs" "attrs s1 = attrs s"
       "\<forall>ev\<in>set evs. ev_op ev = Op_close \<or> ev_op ev = Op_disarm"
       "task_inv (Called Op_close # evs) Op_close o1"
       "task_inv (Called Op_close # evs) Op_disarm o2"
       "agrees r1 [o1, o2]" by blast
  let ?g = "Called Op_close # evs"
  have ops: "\<forall>ev\<in>set ?g. ev_op ev = Op_close \<or> ev_op ev = Op_disarm" using e(3) by simp
  have dis: "Called Op_disarm \<in> set ?g" using e(5) by (rule task_inv_called)
  have noopen: "\<And>k. Called (Op_open k) \<notin> set ?g" using ops by fastforce
  have second: "(\<exists>w c. advance (close (data self)) (world s) = (w, Pending c))
                  \<longrightarrow> ?g ! 1 = Called Op_disarm"
  proof
    assume "\<exists>w c. advance (close (data self)) (world s) = (w, Pending c)"
    then obtain w c where p: "advance (close (data self)) (world s) = (w, Pending c)" by blast
    have "Op_close \<noteq> Op_disarm" by simp
    from gather_second_started[OF this p g[unfolded stage_gather_def]] e(1)
    show "?g ! 1 = Called Op_disarm" by auto
  qed
  show ?thesis
  proof (cases r1)
    case (Inl e1)
    with assms g e(1) have tr: "tr = ?g" and "r = Inl e1" by (auto simp: stage_run)
    then show ?thesis using dis noopen second by auto
  next
    case (Inr res)
    with e(6) obtain a b where o: "o1 = Finished a" "o2 = Finished b"
      using agrees_two_returned by blast
    have c: "events_of Op_close ?g = [Called Op_close, Returned Op_close]"
      and d: "events_of Op_disarm ?g = [Called Op_disarm, Returned Op_disarm]"
      using e(4,5) o by (simp_all add: task_inv_def)
    have sh: "?g \<in> shuffles [Called Op_close, Returned Op_close]
                             [Called Op_disarm, Returned Op_disarm]"
      using two_ops_shuffle[OF ops, of ] c d by simp
    obtain w2 r2 where op: "run (DetectorWriter.open (data self) 1) (world s1) = (w2, r2)"
      by (cases "run (DetectorWriter.open (data self) 1) (world s1)")
    obtain x where tr: "tr = ?g @ Called (Op_open 1) # [x]"
      and x: "x = (case r2 of Inl e2 \<Rightarrow> Raised (Op_open 1) e2 | Inr d \<Rightarrow> Returned (Op_open 1))"
      using assms g Inr op e(1) by (auto simp: stage_run split: sum.splits)
    have A: "hd tr = Called Op_close" using tr by simp
    have B: "Called Op_disarm \<in> set tr" using tr dis by simp
    have "tr ! 1 = ?g ! 1" using tr dis by (auto simp: nth_append nth_Cons')
    then have C: "(\<exists>w c. advance (close (data self)) (world s) = (w, Pending c))
                    \<longrightarrow> tr ! 1 = Called Op_disarm" using second by simp
    have D: "\<forall>k. Called (Op_open k) \<in> set tr \<longrightarrow>
          k = 1 \<and> (\<exists>evs rest. tr = evs @ Called (Op_open 1) # rest
                     \<and> evs \<in> shuffles [Called Op_close, Returned Op_close]
                                        [Called Op_disarm, Returned Op_disarm])"
    proof (intro allI impI conjI)
      fix k assume "Called (Op_open k) \<in> set tr"
      then show "k = 1" using tr x noopen by (auto split: sum.splits)
    next
      show "\<exists>evs rest. tr = evs @ Called (Op_open 1) # rest
                     \<and> evs \<in> shuffles [Called Op_close, Returned Op_close]
                                        [Called Op_disarm, Returned Op_disarm]"
        using tr sh by blast
    qed
    have E: "\<forall>u. r = Inr u \<longrightarrow>
          (\<exists>s1 res d. run (stage_gather sched self) s = (s1, Inr res)
             \<and> run (DetectorWriter.open (data self) 1) (world s1) = (world s', Inr d)
             \<and> describe s' = (s', Inr d)
             \<and> last tr = Returned (Op_open 1))"
    proof (intro allI impI)
      fix u assume "r = Inr u"
      with assms(1) g Inr op obtain d where d: "r2 = Inr d"
        and s': "s' = s1\<lparr>world := w2,
                    trace := trace s1 @ [Called (Op_open 1), Returned (Op_open 1)],
                    attrs := d\<rparr>"
        by (auto simp: stage_run split: sum.splits)
      have "run (stage_gather sched self) s = (s1, Inr res)
             \<and> run (DetectorWriter.open (data self) 1) (world s1) = (world s', Inr d)
             \<and> describe s' = (s', Inr d) \<and> last tr = Returned (Op_open 1)"
        using g Inr op d s' tr x by (simp add: describe_def)
      then show "\<exists>s1 res d. run (stage_gather sched self) s = (s1, Inr res)
             \<and> run (DetectorWriter.open (data self) 1) (world s1) = (world s', Inr d)
             \<and> describe s' = (s', Inr d)
             \<and> last tr = Returned (Op_open 1)" by blast
    qed
    from A B C D E show ?thesis by blast
  qed
qed

text \<open>
  Claim C3. In every run of \<^verbatim>\<open>stage()\<close>, under every schedule: \<^verbatim>\<open>close()\<close> is
  started first and \<^verbatim>\<open>disarm()\<close> is started too; if \<^verbatim>\<open>close()\<close> suspends before it
  ends, \<^verbatim>\<open>disarm()\<close> is started next, while \<^verbatim>\<open>close()\<close> is still pending (the two
  run concurrently). If \<^verbatim>\<open>open\<close> is called at all, it is \<^verbatim>\<open>open(1)\<close> and the
  events before its call are an interleaving of the call and return of \<^verbatim>\<open>close\<close>
  with the call and return of \<^verbatim>\<open>disarm\<close>: both have completed. If \<^verbatim>\<open>stage()\<close>
  returns, the description that \<^verbatim>\<open>open(1)\<close> returned on the world the gather left
  is what \<^verbatim>\<open>describe()\<close> returns afterwards.
\<close>

theorem stage_closes_and_disarms_then_opens:
  fixes s s' :: "('w, 'd) detector_state"
  assumes "run (stage sched self) s = (s', r)"
  shows "\<exists>tr. trace s' = trace s @ tr
    \<and> hd tr = Called Op_close \<and> Called Op_disarm \<in> set tr
    \<and> ((\<exists>w c. advance (close (data self)) (world s) = (w, Pending c))
          \<longrightarrow> tr ! 1 = Called Op_disarm)
    \<and> (\<forall>k. Called (Op_open k) \<in> set tr \<longrightarrow>
          k = 1 \<and> (\<exists>evs rest. tr = evs @ Called (Op_open 1) # rest
                     \<and> evs \<in> shuffles [Called Op_close, Returned Op_close]
                                        [Called Op_disarm, Returned Op_disarm]))
    \<and> (\<forall>u. r = Inr u \<longrightarrow>
          (\<exists>s1 res d. run (stage_gather sched self) s = (s1, Inr res)
             \<and> run (DetectorWriter.open (data self) 1) (world s1) = (world s', Inr d)
             \<and> describe s' = (s', Inr d)
             \<and> last tr = Returned (Op_open 1)))"
proof -
  obtain s1 r1 where g: "run (stage_gather sched self) s = (s1, r1)"
    by (cases "run (stage_gather sched self) s")
  from stage_gather_inv[OF g] obtain evs where e: "trace s1 = trace s @ Called Op_close # evs"
    by blast
  have "\<exists>rest. trace s' = trace s1 @ rest"
    using assms g by (auto simp: stage_run split: sum.splits prod.splits)
  then obtain tr where "trace s' = trace s @ tr" using e by auto
  from stage_trace_shape[OF assms this] this show ?thesis by blast
qed

text \<open>
  The simulated detector staged: \<^verbatim>\<open>disarm\<close> starts and ends while \<^verbatim>\<open>close\<close> is
  pending.
\<close>

theorem stage_closes_and_disarms_then_opens_witness:
  "run (stage [0] sim_detector) (StandardDetector_init sim_world0) =
     (\<lparr>world = \<lparr>written = 0, armed = False, opened = True\<rparr>,
       trace = [Called Op_close, Called Op_disarm, Returned Op_disarm, Returned Op_close,
                Called (Op_open 1), Returned (Op_open 1)],
       attrs = [(''det'', 1)]\<rparr>, Inr ())
   \<and> advance (close (data sim_detector)) sim_world0 =
       (sim_world0, Pending (Atomic (\<lambda>w. w\<lparr>opened := False\<rparr>) (\<lambda>_. Return ())))
   \<and> describe \<lparr>world = \<lparr>written = 0, armed = False, opened = True\<rparr>,
       trace = [Called Op_close, Called Op_disarm, Returned Op_disarm, Returned Op_close,
                Called (Op_open 1), Returned (Op_open 1)],
       attrs = [(''det'', 1 :: int)]\<rparr> =
       (\<lparr>world = \<lparr>written = 0, armed = False, opened = True\<rparr>,
         trace = [Called Op_close, Called Op_disarm, Returned Op_disarm, Returned Op_close,
                  Called (Op_open 1), Returned (Op_open 1)],
         attrs = [(''det'', 1)]\<rparr>, Inr [(''det'', 1)])"
proof -
  let ?tr = "[Called Op_close, Called Op_disarm, Returned Op_disarm, Returned Op_close,
                Called (Op_open 1), Returned (Op_open 1)]"
  let ?s' = "\<lparr>world = \<lparr>written = 0, armed = False, opened = True\<rparr>, trace = ?tr,
              attrs = [(''det'', 1 :: int)]\<rparr>"
  have h: "run (stage [0] sim_detector) (StandardDetector_init sim_world0) = (?s', Inr ())"
    by (simp add: gather_eval sim_defs)
  have p: "advance (close (data sim_detector)) sim_world0 =
       (sim_world0, Pending (Atomic (\<lambda>w. w\<lparr>opened := False\<rparr>) (\<lambda>_. Return ())))"
    by (simp add: sim_defs)
  from stage_closes_and_disarms_then_opens[OF h] h p show ?thesis
    by (simp add: describe_def)
qed

text \<open>
  Claim C6. If \<^verbatim>\<open>close()\<close> or \<^verbatim>\<open>disarm()\<close> raises during \<^verbatim>\<open>stage()\<close>, then
  \<^verbatim>\<open>stage()\<close> raises an exception that one of the two has raised, \<^verbatim>\<open>open\<close> is
  not called, the cached description is unchanged, and the run consists of events of
  \<^verbatim>\<open>close\<close> and \<^verbatim>\<open>disarm\<close> only, each called exactly once: nothing is retried
  and nothing is rolled back.
\<close>

theorem stage_failure_in_gather:
  fixes s s' :: "('w, 'd) detector_state"
  assumes "run (stage sched self) s = (s', r)" and "trace s' = trace s @ tr"
    and "Raised Op_close e \<in> set tr \<or> Raised Op_disarm e \<in> set tr"
  shows "(\<exists>e'. r = Inl e' \<and> (Raised Op_close e' \<in> set tr \<or> Raised Op_disarm e' \<in> set tr))
    \<and> (\<forall>k. Called (Op_open k) \<notin> set tr)
    \<and> attrs s' = attrs s
    \<and> (\<forall>ev\<in>set tr. ev_op ev = Op_close \<or> ev_op ev = Op_disarm)
    \<and> filter (\<lambda>ev. ev = Called Op_close) tr = [Called Op_close]
    \<and> filter (\<lambda>ev. ev = Called Op_disarm) tr = [Called Op_disarm]"
proof -
  obtain s1 r1 where g: "run (stage_gather sched self) s = (s1, r1)"
    by (cases "run (stage_gather sched self) s")
  from stage_gather_inv[OF g]
  obtain evs and o1 o2 :: "((('w, 'd) detector_state), unit) outcome" where
    e: "trace s1 = trace s @ Called Op_close # evs" "attrs s1 = attrs s"
       "\<forall>ev\<in>set evs. ev_op ev = Op_close \<or> ev_op ev = Op_disarm"
       "task_inv (Called Op_close # evs) Op_close o1"
       "task_inv (Called Op_close # evs) Op_disarm o2"
       "agrees r1 [o1, o2]" by blast
  let ?g = "Called Op_close # evs"
  have ops: "\<forall>ev\<in>set ?g. ev_op ev = Op_close \<or> ev_op ev = Op_disarm" using e(3) by simp
  have noopen: "\<And>k. Called (Op_open k) \<notin> set ?g" using ops by fastforce
  show ?thesis
  proof (cases r1)
    case (Inr res)
    with e(6) obtain a b where o: "o1 = Finished a" "o2 = Finished b"
      using agrees_two_returned by blast
    have c: "events_of Op_close ?g = [Called Op_close, Returned Op_close]"
      and d: "events_of Op_disarm ?g = [Called Op_disarm, Returned Op_disarm]"
      using e(4,5) o by (simp_all add: task_inv_def)
    obtain w2 r2 where op: "run (DetectorWriter.open (data self) 1) (world s1) = (w2, r2)"
      by (cases "run (DetectorWriter.open (data self) 1) (world s1)")
    obtain x where tr: "tr = ?g @ Called (Op_open 1) # [x]"
      and x: "x = (case r2 of Inl e2 \<Rightarrow> Raised (Op_open 1) e2 | Inr d \<Rightarrow> Returned (Op_open 1))"
      using assms(1,2) g Inr op e(1) by (auto simp: stage_run split: sum.splits)
    have "ev_op x = Op_open 1" using x by (simp split: sum.splits)
    then have "x \<noteq> Raised Op_close e" "x \<noteq> Raised Op_disarm e" by auto
    with assms(3) tr have "Raised Op_close e \<in> set ?g \<or> Raised Op_disarm e \<in> set ?g"
      by simp
    then have "Raised Op_close e \<in> set (events_of Op_close ?g)
               \<or> Raised Op_disarm e \<in> set (events_of Op_disarm ?g)"
      by (simp only: events_of_def set_filter mem_Collect_eq ev_op.simps simp_thms)
    then have False unfolding c d by simp
    then show ?thesis ..
  next
    case (Inl e1)
    have s1: "s' = s1" and r: "r = Inl e1"
      using assms(1) g Inl by (simp_all add: stage_run)
    have tr: "tr = ?g" using assms(2) e(1) s1 by simp
    have a: "attrs s' = attrs s" using e(2) s1 by simp
    from e(6) Inl have "o1 = Failed e1 \<or> o2 = Failed e1" using agrees_two_raised by blast
    then have "Raised Op_close e1 \<in> set (events_of Op_close ?g)
               \<or> Raised Op_disarm e1 \<in> set (events_of Op_disarm ?g)"
    proof
      assume "o1 = Failed e1"
      with e(4) have "events_of Op_close ?g = [Called Op_close, Raised Op_close e1]"
        by (simp add: task_inv_def)
      then show ?thesis by simp
    next
      assume "o2 = Failed e1"
      with e(5) have "events_of Op_disarm ?g = [Called Op_disarm, Raised Op_disarm e1]"
        by (simp add: task_inv_def)
      then show ?thesis by simp
    qed
    then have "Raised Op_close e1 \<in> set ?g \<or> Raised Op_disarm e1 \<in> set ?g"
      by (simp only: events_of_def set_filter mem_Collect_eq ev_op.simps simp_thms)
    then have A: "\<exists>e'. r = Inl e' \<and> (Raised Op_close e' \<in> set tr \<or> Raised Op_disarm e' \<in> set tr)"
      unfolding tr r by (rule_tac x = e1 in exI) simp
    have B: "\<forall>k. Called (Op_open k) \<notin> set tr" unfolding tr using noopen by (rule allI)
    have C: "\<forall>ev\<in>set tr. ev_op ev = Op_close \<or> ev_op ev = Op_disarm"
      unfolding tr by (rule ops)
    have D: "filter (\<lambda>ev. ev = Called Op_close) tr = [Called Op_close]"
      unfolding tr using e(4) by (rule task_inv_called_once)
    have E: "filter (\<lambda>ev. ev = Called Op_disarm) tr = [Called Op_disarm]"
      unfolding tr using e(5) by (rule task_inv_called_once)
    show ?thesis
      apply (intro conjI)
           apply (rule A)
          apply (rule B)
         apply (rule a)
        apply (rule C)
       apply (rule D)
      apply (rule E)
      done
  qed
qed

text \<open>
  Staging the detector whose control fails to disarm: \<^verbatim>\<open>close\<close>, started before,
  is resumed and returns before \<^verbatim>\<open>stage()\<close> raises.
\<close>

theorem stage_failure_in_gather_witness:
  "run (stage [0] broken_disarm_detector) (StandardDetector_init (sim_world0\<lparr>opened := True\<rparr>)) =
     (\<lparr>world = sim_world0,
       trace = [Called Op_close, Called Op_disarm,
                Raised Op_disarm (OtherError ''disarm failed''), Returned Op_close],
       attrs = []\<rparr>, Inl (OtherError ''disarm failed''))
   \<and> Raised Op_disarm (OtherError ''disarm failed'')
        \<in> set [Called Op_close, Called Op_disarm,
                Raised Op_disarm (OtherError ''disarm failed''), Returned Op_close]"
proof -
  let ?tr = "[Called Op_close, Called Op_disarm,
                Raised Op_disarm (OtherError ''disarm failed''), Returned Op_close]"
  let ?s' = "\<lparr>world = sim_world0, trace = ?tr, attrs = ([] :: (string \<times> int) list)\<rparr>"
  have h: "run (stage [0] broken_disarm_detector)
             (StandardDetector_init (sim_world0\<lparr>opened := True\<rparr>)) =
           (?s', Inl (OtherError ''disarm failed''))"
    by (simp add: gather_eval sim_defs broken_disarm_detector_def)
  have t: "trace ?s' = trace (StandardDetector_init (sim_world0\<lparr>opened := True\<rparr>)
                                :: (sim_world, int) detector_state) @ ?tr"
    by (simp add: StandardDetector_init_def)
  have x: "Raised Op_close (OtherError ''disarm failed'') \<in> set ?tr
           \<or> Raised Op_disarm (OtherError ''disarm failed'') \<in> set ?tr" by simp
  from stage_failure_in_gather[OF h t x] h show ?thesis by simp
qed

section \<open>\<^verbatim>\<open>StandardDetector.describe\<close> and \<^verbatim>\<open>StandardDetector.read\<close>\<close>

text \<open>
  Claim C4, as stated, fails: on a detector that has just been constructed and never
  staged, \<^verbatim>\<open>describe()\<close> returns the empty mapping; it does not raise.
\<close>

theorem describe_before_stage_counterexample:
  "describe (StandardDetector_init sim_world0 :: (sim_world, int) detector_state) =
     (StandardDetector_init sim_world0, Inr [])"
  by (simp add: describe_def StandardDetector_init_def)

text \<open>
  Claim C4, amended. \<^verbatim>\<open>describe()\<close> never raises: it returns the cached description,
  which is the empty mapping from construction until a \<^verbatim>\<open>stage()\<close> stores another.
\<close>

theorem describe_returns_cache:
  "describe (StandardDetector_init w) = (StandardDetector_init w, Inr [])
   \<and> describe s = (s, Inr (attrs s))"
  by (simp add: describe_def StandardDetector_init_def)

text \<open>
  Claim C7. In every state \<^verbatim>\<open>read()\<close> returns the empty mapping and leaves the state
  as it is: the world, the cached description and the trace, so it calls neither the
  control nor the writer.
\<close>

theorem read_returns_empty:
  "run (read self) s = (s, Inr [])"
  by (simp add: read_def)

section \<open>\<^verbatim>\<open>StandardDetector.unstage\<close>\<close>







section \<open>\<^verbatim>\<open>PilatusController\<close>: dead time and arming\<close>

text \<open>
  Claim C9. \<^verbatim>\<open>get_deadtime\<close> is a plain call, not a coroutine, so it has no
  suspension point. For every exposure and in every state it returns 0.001 and leaves
  the state as it is, so two calls with the same argument return the same result
  whatever the states they are made in.
\<close>

theorem get_deadtime_constant:
  "PilatusController_get_deadtime self exposure s = (s, Inr 0.001)
   \<and> snd (PilatusController_get_deadtime self exposure s)
       = snd (PilatusController_get_deadtime self exposure s')"
  by (simp add: PilatusController_get_deadtime_def)

lemmas pilatus_defs = sim_pilatus_def sim_pilatus_driver_def sim_pilatus_deps_def
  pilatus_state0_def pilatus_world0_def

lemma TRIGGER_MODE_value:
  assumes "\<forall>i. rule i (Tuple []) = Tuple []"
  shows "TRIGGER_MODE rule TM =
     Inr [(\<lparr>member_name = ''internal'', member_value = Tuple []\<rparr>, ext_enable TM)]"
  using DetectorTrigger_map[of rule] assms
  by (simp add: TRIGGER_MODE_def enum_getattr_def dict_display_def)

lemma TRIGGER_MODE_new_objects:
  "TRIGGER_MODE new_object_for_empty_tuple TM =
     Inr [(\<lparr>member_name = ''internal'', member_value = Object 0\<rparr>, internal TM),
          (\<lparr>member_name = ''constant_gate'', member_value = Object 2\<rparr>, ext_enable TM),
          (\<lparr>member_name = ''variable_gate'', member_value = Object 3\<rparr>, ext_enable TM)]"
  by (simp add: TRIGGER_MODE_def enum_getattr_def DetectorTrigger_new_objects dict_display_def)

lemma PilatusController_arm_run:
  assumes "TRIGGER_MODE rule (TriggerMode deps) = Inr trigger_modes"
    and "dict_getitem trigger_modes mode = Inr tm"
  shows "run (PilatusController_arm rule deps sched self mode num exposure) s =
     (case run (gather sched
             (call (Set_trigger_mode tm) (trigger_mode_set (driver self) tm)
              # map (\<lambda>(n, c). call n c)
                  [(Set_num_images num, num_images_set (driver self) num),
                   (Set_image_mode (multiple (ImageMode deps)),
                    image_mode_set (driver self) (multiple (ImageMode deps)))])) s of
        (s1, Inl e) \<Rightarrow> (s1, Inl e)
      | (s1, Inr _) \<Rightarrow>
          (case run (arm_and_trigger_detector_and_check_status_pv deps (driver self)) (world s1) of
             (w2, Inl e) \<Rightarrow>
               (s1\<lparr>world := w2, trace := trace s1 @ [Called Arm_and_trigger, Raised Arm_and_trigger e]\<rparr>,
                Inl e)
           | (w2, Inr status) \<Rightarrow>
               (s1\<lparr>world := w2, trace := trace s1 @ [Called Arm_and_trigger, Returned Arm_and_trigger]\<rparr>,
                Inr status)))"
  by (simp add: PilatusController_arm_def assms lift_result_def
        run_bind run_call split: prod.splits sum.splits)

lemma arm_sets_trigger_mode_once:
  fixes s s' :: "('w, 'tm, 'im) pilatus_state"
  assumes tms: "TRIGGER_MODE rule (TriggerMode deps) = Inr trigger_modes"
    and tm: "dict_getitem trigger_modes mode = Inr tm"
    and run: "run (PilatusController_arm rule deps sched self mode num exposure) s = (s', r)"
  shows "\<exists>evs. trace s' = trace s @ Called (Set_trigger_mode tm) # evs
          \<and> (\<forall>v. Called (Set_trigger_mode v) \<notin> set evs)"
proof -
  let ?n = "Set_trigger_mode tm :: ('tm, 'im) pilatus_op"
  let ?ncs = "[(Set_num_images num, num_images_set (driver self) num),
               (Set_image_mode (multiple (ImageMode deps)),
                image_mode_set (driver self) (multiple (ImageMode deps)))]"
  obtain s1 r1 where g: "run (gather sched (call ?n (trigger_mode_set (driver self) tm)
                            # map (\<lambda>(n, c). call n c) ?ncs)) s = (s1, r1)"
    by (cases "run (gather sched (call ?n (trigger_mode_set (driver self) tm)
                            # map (\<lambda>(n, c). call n c) ?ncs)) s")
  have d: "distinct (?n # map fst ?ncs)" by simp
  from gather_calls_inv[OF d g]
  obtain evs and outs :: "((('w, 'tm, 'im) pilatus_state), unit) outcome list" where
    e: "trace s1 = trace s @ Called ?n # evs"
       "\<forall>ev\<in>set evs. ev_op ev \<in> set (?n # map fst ?ncs)"
       "list_all2 (task_inv (Called ?n # evs)) (?n # map fst ?ncs) outs" by blast
  from e(3) obtain o1 :: "((('w, 'tm, 'im) pilatus_state), unit) outcome"
    where "task_inv (Called ?n # evs) ?n o1"
    by (auto simp: list_all2_Cons1)
  then have "filter (\<lambda>ev. ev = Called ?n) (Called ?n # evs) = [Called ?n]"
    by (rule task_inv_called_once)
  then have "filter (\<lambda>ev. ev = Called ?n) evs = []" by simp
  then have once: "Called ?n \<notin> set evs" by (auto simp: filter_empty_conv)
  have none: "\<And>v. Called (Set_trigger_mode v) \<notin> set evs"
  proof
    fix v assume v: "Called (Set_trigger_mode v) \<in> set evs"
    with e(2) have "ev_op (Called (Set_trigger_mode v) :: ('tm, 'im) pilatus_op event)
                      \<in> set (?n # map fst ?ncs)" by blast
    then have "v = tm" by simp
    with v once show False by simp
  qed
  obtain x where tr: "trace s' = trace s1 \<or> trace s' = trace s1 @ [Called Arm_and_trigger, x]"
    using run g by (auto simp: PilatusController_arm_run[OF tms tm] split: sum.splits prod.splits)
  then obtain rest where rest: "trace s' = trace s @ Called ?n # evs @ rest"
    and r2: "\<And>v. Called (Set_trigger_mode v) \<notin> set rest"
  proof
    assume "trace s' = trace s1"
    then have "trace s' = trace s @ Called ?n # evs @ []" using e(1) by simp
    then show ?thesis using that by fastforce
  next
    assume "trace s' = trace s1 @ [Called Arm_and_trigger, x]"
    then have "trace s' = trace s @ Called ?n # evs @ [Called Arm_and_trigger, x]"
      using e(1) by simp
    moreover have "\<exists>e. x = Returned Arm_and_trigger \<or> x = Raised Arm_and_trigger e"
      using run g \<open>trace s' = trace s1 @ [Called Arm_and_trigger, x]\<close>
      by (auto simp: PilatusController_arm_run[OF tms tm] split: sum.splits prod.splits)
    ultimately show ?thesis using that[of "[Called Arm_and_trigger, x]"] by auto
  qed
  show ?thesis using rest none r2 by (intro exI[of _ "evs @ rest"]) auto
qed

text \<open>
  Claim C10. Let every member of \<^verbatim>\<open>DetectorTrigger\<close> carry the value \<^verbatim>\<open>()\<close>, as
  the claim says (the value rule of the interpreter keeps the written empty tuple).
  Then, whatever name of \<^verbatim>\<open>DetectorTrigger\<close> the mode is taken from, it is the
  member that all three keys of the \<^verbatim>\<open>TRIGGER_MODE\<close> display denote, the dictionary
  has the single entry from that member to \<^verbatim>\<open>TriggerMode.ext_enable\<close>, and every
  run of \<^verbatim>\<open>arm(mode, num, exposure)\<close>, under every schedule, starts with the call
  that sets the driver's trigger mode to \<^verbatim>\<open>TriggerMode.ext_enable\<close> and sets the
  trigger mode at no other time; so as long as \<^verbatim>\<open>TriggerMode.internal\<close> is another
  member than \<^verbatim>\<open>TriggerMode.ext_enable\<close>, the trigger mode is never set to
  \<^verbatim>\<open>TriggerMode.internal\<close>.
\<close>

theorem pilatus_arm_always_ext_enable:
  fixes s s' :: "('w, 'tm, 'im) pilatus_state"
  assumes "\<forall>i. rule i (Tuple []) = Tuple []"
    and "enum_getattr (DetectorTrigger rule) name = Inr mode"
    and "run (PilatusController_arm rule deps sched self mode num exposure) s = (s', r)"
  shows "enum_getattr (DetectorTrigger rule) ''internal'' = Inr mode
    \<and> enum_getattr (DetectorTrigger rule) ''constant_gate'' = Inr mode
    \<and> enum_getattr (DetectorTrigger rule) ''variable_gate'' = Inr mode
    \<and> TRIGGER_MODE rule (TriggerMode deps) = Inr [(mode, ext_enable (TriggerMode deps))]
    \<and> (\<exists>evs. trace s' = trace s @ Called (Set_trigger_mode (ext_enable (TriggerMode deps))) # evs
          \<and> (\<forall>v. Called (Set_trigger_mode v) \<notin> set evs))
    \<and> (internal (TriggerMode deps) \<noteq> ext_enable (TriggerMode deps) \<longrightarrow>
          (\<forall>evs. trace s' = trace s @ evs \<longrightarrow>
             Called (Set_trigger_mode (internal (TriggerMode deps))) \<notin> set evs))"
proof -
  let ?tm = "ext_enable (TriggerMode deps)"
  have m: "mode = \<lparr>member_name = ''internal'', member_value = Tuple []\<rparr>"
    using assms(1,2) by (rule getattr_DetectorTrigger)
  have keys: "enum_getattr (DetectorTrigger rule) ''internal'' = Inr mode"
    "enum_getattr (DetectorTrigger rule) ''constant_gate'' = Inr mode"
    "enum_getattr (DetectorTrigger rule) ''variable_gate'' = Inr mode"
    using DetectorTrigger_map[of rule] assms(1) by (simp_all add: m enum_getattr_def)
  have tmv: "TRIGGER_MODE rule (TriggerMode deps) = Inr [(mode, ?tm)]"
    by (simp add: TRIGGER_MODE_value[of rule, OF assms(1)] m)
  have tm: "dict_getitem [(mode, ?tm)] mode = Inr ?tm" by (simp add: dict_getitem_def)
  from arm_sets_trigger_mode_once[OF tmv tm assms(3)]
  obtain evs where A: "trace s' = trace s @ Called (Set_trigger_mode ?tm) # evs"
    "\<forall>v. Called (Set_trigger_mode v) \<notin> set evs" by blast
  have B: "internal (TriggerMode deps) \<noteq> ?tm \<longrightarrow>
          (\<forall>evs. trace s' = trace s @ evs \<longrightarrow>
             Called (Set_trigger_mode (internal (TriggerMode deps))) \<notin> set evs)"
    using A by auto
  from keys tmv A B show ?thesis by blast
qed

text \<open>
  The simulated driver armed with \<^verbatim>\<open>DetectorTrigger.edge_trigger\<close>, a name that is
  not even written in the display, under the documented value rule.
\<close>

theorem pilatus_arm_always_ext_enable_witness:
  "(\<forall>i. value_as_written i (Tuple []) = Tuple [])
   \<and> enum_getattr (DetectorTrigger value_as_written) ''edge_trigger'' =
     Inr \<lparr>member_name = ''internal'', member_value = Tuple []\<rparr>
   \<and> run (PilatusController_arm value_as_written sim_pilatus_deps [2, 0, 1] sim_pilatus
            \<lparr>member_name = ''internal'', member_value = Tuple []\<rparr> 1 None) pilatus_state0 =
       (\<lparr>world = \<lparr>pv_trigger_mode = ''Ext. Enable'', pv_num_images = 1,
                   pv_image_mode = ''Multiple'', pv_acquire = True\<rparr>,
         trace = [Called (Set_trigger_mode ''Ext. Enable''), Called (Set_num_images 1),
                  Called (Set_image_mode ''Multiple''), Returned (Set_image_mode ''Multiple''),
                  Returned (Set_trigger_mode ''Ext. Enable''), Returned (Set_num_images 1),
                  Called Arm_and_trigger, Returned Arm_and_trigger],
         attrs = ()\<rparr>, Inr (Suspend (Return ())))
   \<and> internal (TriggerMode sim_pilatus_deps) \<noteq> ext_enable (TriggerMode sim_pilatus_deps)
   \<and> TRIGGER_MODE value_as_written (TriggerMode sim_pilatus_deps) =
       Inr [(\<lparr>member_name = ''internal'', member_value = Tuple []\<rparr>, ''Ext. Enable'')]"
proof -
  let ?m = "\<lparr>member_name = ''internal'', member_value = Tuple []\<rparr>"
  have v: "\<forall>i. value_as_written i (Tuple []) = Tuple []" by (simp add: value_as_written_def)
  have n: "enum_getattr (DetectorTrigger value_as_written) ''edge_trigger'' = Inr ?m"
    using DetectorTrigger_map[of value_as_written] v by (simp add: enum_getattr_def)
  have tms: "TRIGGER_MODE value_as_written (TriggerMode sim_pilatus_deps) =
               Inr [(?m, ''Ext. Enable'')]"
    by (simp add: TRIGGER_MODE_value[of value_as_written, OF v] pilatus_defs)
  have tm: "dict_getitem [(?m, ''Ext. Enable'')] ?m = Inr ''Ext. Enable''"
    by (simp add: dict_getitem_def)
  have h: "run (PilatusController_arm value_as_written sim_pilatus_deps [2, 0, 1] sim_pilatus ?m 1 None)
             pilatus_state0 =
       (\<lparr>world = \<lparr>pv_trigger_mode = ''Ext. Enable'', pv_num_images = 1,
                   pv_image_mode = ''Multiple'', pv_acquire = True\<rparr>,
         trace = [Called (Set_trigger_mode ''Ext. Enable''), Called (Set_num_images 1),
                  Called (Set_image_mode ''Multiple''), Returned (Set_image_mode ''Multiple''),
                  Returned (Set_trigger_mode ''Ext. Enable''), Returned (Set_num_images 1),
                  Called Arm_and_trigger, Returned Arm_and_trigger],
         attrs = ()\<rparr>, Inr (Suspend (Return ())))"
    by (subst PilatusController_arm_run[OF tms tm])
       (simp add: gather_def call_def log_def on_world_def resume_def run_bind pilatus_defs)
  have d: "internal (TriggerMode sim_pilatus_deps) \<noteq> ext_enable (TriggerMode sim_pilatus_deps)"
    by (simp add: pilatus_defs)
  from pilatus_arm_always_ext_enable[OF v n h] v n h d tms show ?thesis
    by simp
qed

subsection \<open>Under the other value rule\<close>

text \<open>
  Where a member written \<^verbatim>\<open>()\<close> carries a new object, the class has its four members
  and the display its three entries: arming with \<^verbatim>\<open>DetectorTrigger.internal\<close> sets the
  trigger mode to \<^verbatim>\<open>TriggerMode.internal\<close>, and arming with
  \<^verbatim>\<open>DetectorTrigger.edge_trigger\<close> raises \<^verbatim>\<open>KeyError\<close> before anything is set.
\<close>

lemma arm_internal_with_new_objects:
  fixes s s' :: "('w, 'tm, 'im) pilatus_state"
  assumes "enum_getattr (DetectorTrigger new_object_for_empty_tuple) ''internal'' = Inr mode"
    and "run (PilatusController_arm new_object_for_empty_tuple deps sched self mode num exposure) s
           = (s', r)"
  shows "\<exists>evs. trace s' = trace s @ Called (Set_trigger_mode (internal (TriggerMode deps))) # evs
          \<and> (\<forall>v. Called (Set_trigger_mode v) \<notin> set evs)"
proof -
  have m: "mode = \<lparr>member_name = ''internal'', member_value = Object 0\<rparr>"
    using assms(1) by (simp add: enum_getattr_def DetectorTrigger_new_objects)
  have tm: "dict_getitem
              [(\<lparr>member_name = ''internal'', member_value = Object 0\<rparr>, internal (TriggerMode deps)),
               (\<lparr>member_name = ''constant_gate'', member_value = Object 2\<rparr>, ext_enable (TriggerMode deps)),
               (\<lparr>member_name = ''variable_gate'', member_value = Object 3\<rparr>, ext_enable (TriggerMode deps))]
              mode = Inr (internal (TriggerMode deps))"
    by (simp add: dict_getitem_def m)
  from arm_sets_trigger_mode_once[OF TRIGGER_MODE_new_objects tm assms(2)] show ?thesis .
qed

lemma arm_edge_trigger_with_new_objects:
  assumes "enum_getattr (DetectorTrigger new_object_for_empty_tuple) ''edge_trigger'' = Inr mode"
  shows "run (PilatusController_arm new_object_for_empty_tuple deps sched self mode num exposure) s
           = (s, Inl KeyError)"
proof -
  have m: "mode = \<lparr>member_name = ''edge_trigger'', member_value = Object 1\<rparr>"
    using assms by (simp add: enum_getattr_def DetectorTrigger_new_objects)
  show ?thesis
    by (simp add: PilatusController_arm_def TRIGGER_MODE_new_objects dict_getitem_def
          lift_result_def m)
qed

end
